theory Spec2Isabelle
  imports Main
begin

section \<open>The Domineering search engine of Searcher.cpp\<close>

text \<open>
  The development embeds \<^verbatim>\<open>src/src/Searcher.cpp\<close> (the search engine) and the second
  \<^verbatim>\<open>Evaluators.h\<close> of \<^verbatim>\<open>src/unnamed/part_001\<close> (the evaluators Searcher.cpp calls
  through a scratch copy).  Depths, rows and columns are \<^verbatim>\<open>unsigned\<close> in the source and
  natural numbers here: no board or depth limit of the engine comes near the width of the type.
  Scores are \<^verbatim>\<open>Evaluator::score_t = int\<close> and integers here: an evaluation is bounded by
  a small multiple of the number of cells.
\<close>

subsection \<open>The position (DomineeringState)\<close>

datatype Who = HOME | AWAY

text \<open>
  Modelled from the spec: DomineeringState.h is not among the sources.  The spec gives the
  position as a mutable cell grid with symbols for empty, home and away, cell read and write,
  a legality check, an active-player toggle and the board dimensions.  The grid is a list of
  \<open>ROWS\<close> rows of \<open>COLS\<close> cells (the invariant \<open>wf_state\<close>).  The characters of the home
  and away symbols are the ones the first Evaluators.h of part_001 compares against; the
  theorems below use only that the symbols differ from each other.
\<close>

record DomineeringState =
  ROWS :: nat
  COLS :: nat
  board :: "char list list"
  who :: Who

definition HOMESYM :: char where "HOMESYM = CHR ''W''"
definition AWAYSYM :: char where "AWAYSYM = CHR ''B''"
definition EMPTYSYM :: char where "EMPTYSYM = CHR ''.''"


text \<open>
  Modelled from the spec: cell read.  The source reads a cell only after a bounds check
  against \<open>ROWS\<close> and \<open>COLS\<close> (\<open>grid_empty\<close>) or inside loops over the board.
\<close>

definition getCell :: "DomineeringState \<Rightarrow> nat \<Rightarrow> nat \<Rightarrow> char" where
  "getCell s r c = board s ! r ! c"

text \<open>
  Modelled from the spec: cell write.  A write outside the grid leaves the grid as it is.
\<close>

definition setCell :: "DomineeringState \<Rightarrow> nat \<Rightarrow> nat \<Rightarrow> char \<Rightarrow> DomineeringState" where
  "setCell s r c v =
     (if r < length (board s) \<and> c < length (board s ! r)
      then s\<lparr>board := (board s)[r := (board s ! r)[c := v]]\<rparr>
      else s)"

text \<open>Modelled from the spec: the active-player toggle.\<close>

definition togglePlayer :: "DomineeringState \<Rightarrow> DomineeringState" where
  "togglePlayer s = s\<lparr>who := (if who s = HOME then AWAY else HOME)\<rparr>"

text \<open>
  Modelled from the spec: Location.h is not among the sources.  A placement is the pair of
  cells it covers, the fields that \<open>expand\<close>, \<open>tap\<close> and \<open>untap\<close> read and write.
\<close>

record Location =
  r1 :: nat
  c1 :: nat
  r2 :: nat
  c2 :: nat

text \<open>
  Modelled from the spec: the legality check of the position, \<^verbatim>\<open>moveOK\<close>.  The spec says
  what it establishes: both cells of the placement lie on the board and are empty.
\<close>

definition moveOK :: "DomineeringState \<Rightarrow> Location \<Rightarrow> bool" where
  "moveOK s m =
     (r1 m < ROWS s \<and> c1 m < COLS s \<and> r2 m < ROWS s \<and> c2 m < COLS s \<and>
      getCell s (r1 m) (c1 m) = EMPTYSYM \<and> getCell s (r2 m) (c2 m) = EMPTYSYM)"

subsection \<open>Move nodes and the alpha-beta window\<close>

text \<open>
  Modelled from the spec: Node.h is not among the sources.  A node records the team, the ply
  depth, the placement that produced it (\<open>parent_move\<close> in Searcher.cpp), its score and the
  flags \<open>is_terminal\<close> and \<open>is_unset\<close>.
\<close>

record Node =
  team :: Who
  depth :: nat
  parent_move :: Location
  score :: int
  is_terminal :: bool
  is_unset :: bool

text \<open>
  Modelled from the spec: the constants \<^verbatim>\<open>AlphaBeta::NEG_INF\<close> and
  \<^verbatim>\<open>AlphaBeta::POS_INF\<close> (AlphaBeta.h is not among the sources) bound all real scores and
  are the sentinels of terminal results; they are taken as the extreme values of a 32-bit
  \<^verbatim>\<open>int\<close>.
\<close>

definition NEG_INF :: int where "NEG_INF = - 2147483648"
definition POS_INF :: int where "POS_INF = 2147483647"

text \<open>
  Modelled from the spec: the node constructors.  \<open>Node()\<close> is the unscored placeholder at
  depth 0 (the spec leaves its team and placement open); \<open>Node(team, depth, location)\<close> is
  the unscored child the move generator produces.
\<close>

definition Node_default :: Node where
  "Node_default = \<lparr>team = HOME, depth = 0,
     parent_move = \<lparr>r1 = 0, c1 = 0, r2 = 0, c2 = 0\<rparr>,
     score = 0, is_terminal = False, is_unset = True\<rparr>"

definition Node_new :: "Who \<Rightarrow> nat \<Rightarrow> Location \<Rightarrow> Node" where
  "Node_new t d m = \<lparr>team = t, depth = d, parent_move = m,
     score = 0, is_terminal = False, is_unset = True\<rparr>"

text \<open>
  Modelled from the spec: \<open>set_score\<close> records a computed score (the score is unset only
  until computed); \<open>set_as_terminal\<close> marks the node terminal with the sentinel that favours
  the side that is not to move in the position it is given: Home maximises, so the sentinel
  is \<open>NEG_INF\<close> when Home is to move and \<open>POS_INF\<close> when Away is.
\<close>

definition set_score :: "Node \<Rightarrow> int \<Rightarrow> Node" where
  "set_score n v = n\<lparr>score := v, is_unset := False\<rparr>"

definition set_as_terminal :: "Node \<Rightarrow> DomineeringState \<Rightarrow> Node" where
  "set_as_terminal n s =
     n\<lparr>score := (if who s = HOME then NEG_INF else POS_INF),
       is_terminal := True, is_unset := False\<rparr>"

text \<open>
  Modelled from the spec: AlphaBeta.h is not among the sources.  The window is the pair of
  bounds; \<open>update_if_needed\<close> tightens \<open>alpha\<close> for Home and \<open>beta\<close> for Away, and
  \<open>can_prune\<close> is the cutoff test.
\<close>

record AlphaBeta =
  alpha :: int
  beta :: int

definition update_if_needed :: "AlphaBeta \<Rightarrow> int \<Rightarrow> Who \<Rightarrow> AlphaBeta" where
  "update_if_needed ab v t =
     (if t = HOME then (if v > alpha ab then ab\<lparr>alpha := v\<rparr> else ab)
      else (if v < beta ab then ab\<lparr>beta := v\<rparr> else ab))"

definition can_prune :: "AlphaBeta \<Rightarrow> int \<Rightarrow> Who \<Rightarrow> bool" where
  "can_prune ab v t = (if t = HOME then v \<ge> beta ab else v \<le> alpha ab)"

subsection \<open>tap and untap\<close>

definition tap :: "Node \<Rightarrow> DomineeringState \<Rightarrow> DomineeringState" where
  "tap node state =
     (let c = (if team node = HOME then AWAYSYM else HOMESYM);
          state = setCell state (r1 (parent_move node)) (c1 (parent_move node)) c
      in setCell state (r2 (parent_move node)) (c2 (parent_move node)) c)"

definition untap :: "Node \<Rightarrow> DomineeringState \<Rightarrow> DomineeringState" where
  "untap node state =
     (let c = EMPTYSYM;
          state = setCell state (r1 (parent_move node)) (c1 (parent_move node)) c
      in setCell state (r2 (parent_move node)) (c2 (parent_move node)) c)"

subsection \<open>The move generator\<close>

text \<open>
  \<open>expand\<close> of Searcher.cpp: the two nested loops over \<open>r1\<close> and \<open>c1\<close>, pushing a child
  for every candidate the position accepts.
\<close>

definition expand_cell :: "Node \<Rightarrow> DomineeringState \<Rightarrow> nat \<Rightarrow> nat \<Rightarrow> Node list \<Rightarrow> Node list" where
  "expand_cell parent current_state ra ca children =
     (let child_team = (if team parent = HOME then AWAY else HOME);
          child_depth = depth parent + 1;
          rb = (if team parent = HOME then ra else ra + 1);
          cb = (if team parent = HOME then ca + 1 else ca);
          mv = \<lparr>r1 = ra, c1 = ca, r2 = rb, c2 = cb\<rparr>
      in if moveOK current_state mv
         then children @ [Node_new child_team child_depth mv]
         else children)"

definition expand :: "Node \<Rightarrow> DomineeringState \<Rightarrow> Node list" where
  "expand parent current_state =
     fold (\<lambda>ra children.
             fold (\<lambda>ca children. expand_cell parent current_state ra ca children)
               [0 ..< COLS current_state] children)
       [0 ..< ROWS current_state] []"

text \<open>
  \<open>expand\<close> of the older variant of Searcher.cpp (part_000): the same two loops, with the
  orientation and the tag of the children both taken from the player to move of the position.
\<close>

definition expand_cell_part_000 ::
    "Node \<Rightarrow> DomineeringState \<Rightarrow> nat \<Rightarrow> nat \<Rightarrow> Node list \<Rightarrow> Node list" where
  "expand_cell_part_000 parent state ra ca children =
     (let my_team = who state;
          my_depth = depth parent + 1;
          rb = (if my_team = HOME then ra else ra + 1);
          cb = (if my_team = HOME then ca + 1 else ca);
          mv = \<lparr>r1 = ra, c1 = ca, r2 = rb, c2 = cb\<rparr>
      in if moveOK state mv
         then children @ [Node_new my_team my_depth mv]
         else children)"

definition expand_part_000 :: "Node \<Rightarrow> DomineeringState \<Rightarrow> Node list" where
  "expand_part_000 parent state =
     fold (\<lambda>ra children.
             fold (\<lambda>ca children. expand_cell_part_000 parent state ra ca children)
               [0 ..< COLS state] children)
       [0 ..< ROWS state] []"

subsection \<open>The evaluators\<close>

definition MARKEDSYM :: char where "MARKEDSYM = CHR ''!''"

definition mark :: "nat \<Rightarrow> nat \<Rightarrow> DomineeringState \<Rightarrow> DomineeringState" where
  "mark r c state =
     (if getCell state r c \<noteq> EMPTYSYM then state else setCell state r c MARKEDSYM)"

text \<open>\<open>unmark\<close> is the body of the two loops of \<open>clear_marks\<close>.\<close>

definition unmark :: "nat \<Rightarrow> nat \<Rightarrow> DomineeringState \<Rightarrow> DomineeringState" where
  "unmark i j state =
     (if getCell state i j = MARKEDSYM then setCell state i j EMPTYSYM else state)"

definition clear_marks :: "DomineeringState \<Rightarrow> DomineeringState" where
  "clear_marks state =
     fold (\<lambda>i st. fold (\<lambda>j st. unmark i j st) [0 ..< COLS state] st)
       [0 ..< ROWS state] state"

definition grid_empty :: "int \<Rightarrow> int \<Rightarrow> DomineeringState \<Rightarrow> bool" where
  "grid_empty r c state =
     (if r < 0 \<or> r \<ge> int (ROWS state) \<or> c < 0 \<or> c \<ge> int (COLS state) then False
      else getCell state (nat r) (nat c) = EMPTYSYM)"

definition placable :: "int \<Rightarrow> int \<Rightarrow> int \<Rightarrow> int \<Rightarrow> DomineeringState \<Rightarrow> bool" where
  "placable ra ca rb cb state = (grid_empty ra ca state \<and> grid_empty rb cb state)"

definition reserved_for_home :: "int \<Rightarrow> int \<Rightarrow> int \<Rightarrow> int \<Rightarrow> DomineeringState \<Rightarrow> bool" where
  "reserved_for_home ra ca rb cb state =
     (if \<not> placable ra ca rb cb state then False
      else
        let no_space_above = (\<not> grid_empty (ra + 1) ca state \<and> \<not> grid_empty (rb + 1) cb state);
            no_space_below = (\<not> grid_empty (ra - 1) ca state \<and> \<not> grid_empty (rb - 1) cb state)
        in no_space_above \<and> no_space_below)"

definition reserved_for_away :: "int \<Rightarrow> int \<Rightarrow> int \<Rightarrow> int \<Rightarrow> DomineeringState \<Rightarrow> bool" where
  "reserved_for_away ra ca rb cb state =
     (if \<not> placable ra ca rb cb state then False
      else
        let no_space_to_left = (\<not> grid_empty ra (ca - 1) state \<and> \<not> grid_empty rb (cb - 1) state);
            no_space_to_right = (\<not> grid_empty ra (ca + 1) state \<and> \<not> grid_empty rb (cb + 1) state)
        in no_space_to_left \<and> no_space_to_right)"

text \<open>
  An evaluator is a function object called on a pointer to the scratch position: it returns
  its count and leaves its marks on the scratch position.  The count and the position are
  the state of its two loops.
\<close>

type_synonym EvalScore = "DomineeringState \<Rightarrow> int \<times> DomineeringState"
type_synonym EvalFactor = "DomineeringState \<Rightarrow> int"

definition count_and_mark ::
    "bool \<Rightarrow> nat \<Rightarrow> nat \<Rightarrow> nat \<Rightarrow> nat \<Rightarrow> int \<times> DomineeringState \<Rightarrow> int \<times> DomineeringState" where
  "count_and_mark found ra ca rb cb acc =
     (if found then (fst acc + 1, mark rb cb (mark ra ca (snd acc))) else acc)"

definition EvalHomeReserved :: EvalScore where
  "EvalHomeReserved state =
     fold (\<lambda>r acc.
             fold (\<lambda>c acc.
                     count_and_mark
                       (reserved_for_home (int r) (int c) (int r) (int c + 1) (snd acc))
                       r c r (c + 1) acc)
               [0 ..< COLS state] acc)
       [0 ..< ROWS state] (0, state)"

definition EvalHomeOpen :: EvalScore where
  "EvalHomeOpen state =
     fold (\<lambda>c acc.
             fold (\<lambda>r acc.
                     count_and_mark
                       (placable (int r) (int c) (int r) (int c + 1) (snd acc))
                       r c r (c + 1) acc)
               [0 ..< ROWS state] acc)
       [0 ..< COLS state] (0, state)"

definition EvalAwayReserved :: EvalScore where
  "EvalAwayReserved state =
     fold (\<lambda>c acc.
             fold (\<lambda>r acc.
                     count_and_mark
                       (reserved_for_away (int r) (int c) (int r + 1) (int c) (snd acc))
                       r c (r + 1) c acc)
               [0 ..< ROWS state] acc)
       [0 ..< COLS state] (0, state)"

definition EvalAwayOpen :: EvalScore where
  "EvalAwayOpen state =
     fold (\<lambda>c acc.
             fold (\<lambda>r acc.
                     count_and_mark
                       (placable (int r) (int c) (int r + 1) (int c) (snd acc))
                       r c (r + 1) c acc)
               [0 ..< ROWS state] acc)
       [0 ..< COLS state] (0, state)"

definition ClearMarks :: EvalScore where
  "ClearMarks state = (0, clear_marks state)"

definition evaluators :: "(EvalScore \<times> EvalFactor) list" where
  "evaluators =
     [(EvalHomeReserved, \<lambda>state. 2),
      (EvalHomeOpen, \<lambda>state. 1),
      (ClearMarks, \<lambda>state. 0),
      (EvalAwayReserved, \<lambda>state. - 2),
      (EvalAwayOpen, \<lambda>state. - 1),
      (ClearMarks, \<lambda>state. 0)]"

text \<open>
  \<open>evaluate\<close> of Searcher.cpp: the loop over the evaluators, with the running total and the
  scratch copy as its state.  \<open>evaluate_loop\<close> returns both; \<open>evaluate\<close> returns the total.
\<close>

definition evaluate_loop :: "DomineeringState \<Rightarrow> int \<times> DomineeringState" where
  "evaluate_loop state =
     fold (\<lambda>p (total, state_copy).
             let eval_func = fst p; factor_func = snd p;
                 res = eval_func state_copy
             in (total + factor_func state * fst res, snd res))
       evaluators (0, state)"

definition evaluate :: "DomineeringState \<Rightarrow> int" where
  "evaluate state = fst (evaluate_loop state)"

subsection \<open>The search engine\<close>

text \<open>
  The engine's members: the root placeholder, the best-moves table and the move-order cache,
  a map from positions to child lists.  (The transposition table is filled by one constructor
  and never read by the search.)
\<close>

record Searcher =
  root :: Node
  best_moves :: "Node list"
  ordered_moves :: "DomineeringState \<rightharpoonup> Node list"

text \<open>
  The recursion of \<open>search_under\<close> is not bounded by the depth limit when the children come
  from the cache (a cached node carries the depth it was stored with), so the model counts
  calls down from a fuel.  Indexing the best-moves vector out of range has no defined
  behaviour in the source and is the error \<open>OutOfRange\<close> here.
\<close>

datatype error = OutOfFuel | OutOfRange

text \<open>
  Child generation of \<open>search_under\<close>: the cached ordering when the parent is at depth 0
  and the cache has an entry for the position (the whole cache is then cleared), the move
  generator otherwise.
\<close>

definition get_children :: "Searcher \<Rightarrow> Node \<Rightarrow> DomineeringState \<Rightarrow> Node list \<times> Searcher" where
  "get_children sr parent current_state =
     (case ordered_moves sr current_state of
        Some ordered \<Rightarrow>
          if depth parent = 0 then (ordered, sr\<lparr>ordered_moves := Map.empty\<rparr>)
          else (expand parent current_state, sr)
      | None \<Rightarrow> (expand parent current_state, sr))"

text \<open>
  The reset of the current best node before the loop: its score becomes the worst value for
  the team of the parent (\<open>NEG_INF\<close> for Home, \<open>POS_INF\<close> for Away).
\<close>

definition reset_best :: "Searcher \<Rightarrow> Node \<Rightarrow> Searcher" where
  "reset_best sr parent =
     sr\<lparr>best_moves := (best_moves sr)
          [depth parent := set_score (best_moves sr ! depth parent)
             (if team parent = HOME then NEG_INF else POS_INF)]\<rparr>"

text \<open>
  The body of the loop of \<open>search_under\<close> after the recursive call and \<open>untap\<close>: it reads
  the deeper best node back, and either returns from \<open>search_under\<close> (a terminal child, or a
  cutoff) or goes on to the next child with the engine and the window it has reached.  With
  the flag \<open>prune = False\<close> the cutoff test is skipped: this is the search "with pruning
  disabled" that the spec compares with; \<open>prune = True\<close> is the source.
\<close>

datatype step = Return Searcher | Continue Searcher AlphaBeta

definition record_child ::
    "bool \<Rightarrow> Searcher \<Rightarrow> Node \<Rightarrow> AlphaBeta \<Rightarrow> DomineeringState \<Rightarrow> DomineeringState \<Rightarrow> Node
       \<Rightarrow> error + step" where
  "record_child prune sr parent ab current_state next_state child =
     (if \<not> depth parent + 1 < length (best_moves sr) then Inl OutOfRange
      else
        let next_move = best_moves sr ! (depth parent + 1);
            result = score next_move;
            child = set_score child result
        in if is_terminal next_move then
             Inr (Return (sr\<lparr>best_moves := (best_moves sr)
                              [depth parent := set_as_terminal child next_state]\<rparr>))
           else
             let sr = (if depth parent = 2
                       then sr\<lparr>ordered_moves := (ordered_moves sr)
                              (current_state \<mapsto>
                                 (case ordered_moves sr current_state of
                                    None \<Rightarrow> [] | Some l \<Rightarrow> l) @ [child])\<rparr>
                       else sr);
                 current_best = best_moves sr ! depth parent;
                 result_better = (if team parent = HOME then result > score current_best
                                  else result < score current_best)
             in if result_better \<or> is_unset current_best then
                  let sr = sr\<lparr>best_moves := (best_moves sr)[depth parent := child]\<rparr>;
                      ab = update_if_needed ab result (team parent)
                  in if prune \<and> can_prune ab result (team parent) then Inr (Return sr)
                     else Inr (Continue sr ab)
                else Inr (Continue sr ab))"

text \<open>
  \<open>search_under_gen True\<close> is \<open>Searcher::search_under\<close>; \<open>search_children\<close> is its loop
  over the children, whose state is the engine, the window and the local \<open>next_state\<close> that
  \<open>tap\<close> and \<open>untap\<close> mutate in place; the loop returns the engine and \<open>next_state\<close> at
  every exit.
\<close>

fun search_under_gen ::
    "bool \<Rightarrow> nat \<Rightarrow> Searcher \<Rightarrow> Node \<Rightarrow> AlphaBeta \<Rightarrow> DomineeringState \<Rightarrow> nat \<Rightarrow> error + Searcher"
and search_children ::
    "bool \<Rightarrow> nat \<Rightarrow> Searcher \<Rightarrow> Node \<Rightarrow> AlphaBeta \<Rightarrow> DomineeringState \<Rightarrow> DomineeringState \<Rightarrow> nat
       \<Rightarrow> Node list \<Rightarrow> error + Searcher \<times> DomineeringState"
where
  "search_under_gen prune 0 sr parent ab current_state depth_limit = Inl OutOfFuel"
| "search_under_gen prune (Suc fuel) sr parent ab current_state depth_limit =
     (if depth parent \<ge> depth_limit then
        (if depth parent < length (best_moves sr)
         then Inr (sr\<lparr>best_moves := (best_moves sr)
                        [depth parent := set_score parent (evaluate current_state)]\<rparr>)
         else Inl OutOfRange)
      else
        let children = fst (get_children sr parent current_state);
            sr = snd (get_children sr parent current_state)
        in if \<not> depth parent < length (best_moves sr) then Inl OutOfRange
           else if children = [] then
             Inr (sr\<lparr>best_moves := (best_moves sr)
                       [depth parent := set_as_terminal parent current_state]\<rparr>)
           else
             let sr = reset_best sr parent;
                 next_state = togglePlayer current_state
             in map_sum id fst
                  (search_children prune fuel sr parent ab current_state next_state
                     depth_limit children))"
| "search_children prune fuel sr parent ab current_state next_state depth_limit [] =
     Inr (sr, next_state)"
| "search_children prune fuel sr parent ab current_state next_state depth_limit (child # rest) =
     (let next_state = tap child next_state in
      case search_under_gen prune fuel sr child ab next_state depth_limit of
        Inl e \<Rightarrow> Inl e
      | Inr sr \<Rightarrow>
          let next_state = untap child next_state in
          case record_child prune sr parent ab current_state next_state child of
            Inl e \<Rightarrow> Inl e
          | Inr (Return sr) \<Rightarrow> Inr (sr, next_state)
          | Inr (Continue sr ab) \<Rightarrow>
              search_children prune fuel sr parent ab current_state next_state
                depth_limit rest)"

definition search_under ::
    "nat \<Rightarrow> Searcher \<Rightarrow> Node \<Rightarrow> AlphaBeta \<Rightarrow> DomineeringState \<Rightarrow> nat \<Rightarrow> error + Searcher" where
  "search_under = search_under_gen True"

text \<open>
  Modelled from the spec: the comparison of nodes that \<open>move_order\<close> sorts with (the
  operators of Node.h, which is not among the sources) is the comparison of their scores.
  \<open>move_order\<close> of Searcher.cpp sorts every cached list, by descending score for a Home root
  and by ascending score for an Away root.  The sort of the source leaves the order among
  nodes of equal score open; the model keeps them in the order they had.
\<close>

definition sort_moves :: "Who \<Rightarrow> Node list \<Rightarrow> Node list" where
  "sort_moves t moves =
     (if t = HOME then sort_key (\<lambda>node. - score node) moves else sort_key score moves)"

definition move_order :: "Who \<Rightarrow> Searcher \<Rightarrow> Searcher" where
  "move_order t sr =
     sr\<lparr>ordered_moves := (\<lambda>state. map_option (sort_moves t) (ordered_moves sr state))\<rparr>"

text \<open>
  \<open>search_gen True\<close> is \<open>Searcher::search\<close>: it resets the best-moves table, searches under
  the root with the full window, starts \<open>move_order\<close> and returns the front of the table.
  The source runs \<open>move_order\<close> on a thread of its own that the next \<open>search\<close> (or
  \<open>cleanup\<close>) joins before it does anything else, and \<open>move_order\<close> does not touch the
  best-moves table; so the node returned is the front of the table as \<open>search_under\<close> left
  it, and the engine the next call works on is the engine after \<open>move_order\<close>, which is the
  engine returned here.
\<close>

definition search_gen ::
    "bool \<Rightarrow> nat \<Rightarrow> Searcher \<Rightarrow> DomineeringState \<Rightarrow> nat \<Rightarrow> error + Node \<times> Searcher" where
  "search_gen prune fuel sr state depth_limit =
     (let sr = sr\<lparr>best_moves := replicate (depth_limit + 1) Node_default\<rparr>;
          ab = \<lparr>alpha = NEG_INF, beta = POS_INF\<rparr>
      in case search_under_gen prune fuel sr (root sr) ab state depth_limit of
           Inl e \<Rightarrow> Inl e
         | Inr sr \<Rightarrow>
             (case best_moves sr of
                [] \<Rightarrow> Inl OutOfRange
              | front # _ \<Rightarrow> Inr (front, move_order (team (root sr)) sr)))"

definition search :: "nat \<Rightarrow> Searcher \<Rightarrow> DomineeringState \<Rightarrow> nat \<Rightarrow> error + Node \<times> Searcher" where
  "search = search_gen True"

subsection \<open>Auxiliary definitions for the statements\<close>

text \<open>
  The candidate placement \<open>expand\<close> builds for a first cell: to the right of it when the
  parent's team is Home, below it when it is Away.
\<close>

definition candidate :: "Who \<Rightarrow> nat \<times> nat \<Rightarrow> Location" where
  "candidate t p = \<lparr>r1 = fst p, c1 = snd p,
      r2 = (if t = HOME then fst p else fst p + 1),
      c2 = (if t = HOME then snd p + 1 else snd p)\<rparr>"

definition child_of :: "Node \<Rightarrow> nat \<times> nat \<Rightarrow> Node" where
  "child_of parent p =
     Node_new (if team parent = HOME then AWAY else HOME) (depth parent + 1)
       (candidate (team parent) p)"

text \<open>
  The first cell of the placement of a child, and the row-major order on cells.
\<close>

definition row_major :: "nat \<times> nat \<Rightarrow> nat \<times> nat \<Rightarrow> bool" where
  "row_major p q = (fst p < fst q \<or> (fst p = fst q \<and> snd p < snd q))"

definition first_cell :: "Node \<Rightarrow> nat \<times> nat" where
  "first_cell child = (r1 (parent_move child), c1 (parent_move child))"

text \<open>Small positions and a fresh engine, for evaluating the engine on concrete inputs.\<close>

definition fresh_engine :: "Who \<Rightarrow> Searcher" where
  "fresh_engine t =
     \<lparr>root = Node_default\<lparr>team := t\<rparr>, best_moves = [], ordered_moves = Map.empty\<rparr>"

definition full_window :: AlphaBeta where
  "full_window = \<lparr>alpha = NEG_INF, beta = POS_INF\<rparr>"

definition board_1x1 :: DomineeringState where
  "board_1x1 = \<lparr>ROWS = 1, COLS = 1, board = [''.''], who = HOME\<rparr>"

definition board_1x2 :: DomineeringState where
  "board_1x2 = \<lparr>ROWS = 1, COLS = 2, board = [''..''], who = HOME\<rparr>"

definition board_2x2 :: DomineeringState where
  "board_2x2 = \<lparr>ROWS = 2, COLS = 2, board = [''..'', ''..''], who = HOME\<rparr>"

text \<open>
  An engine whose cache holds an ordering for two positions, as a search to depth 3 or more
  leaves it (cached nodes are the depth-3 children of a depth-2 node), and a depth-2 parent.
\<close>

definition cached_child :: Node where
  "cached_child = \<lparr>team = AWAY, depth = 3, parent_move = \<lparr>r1 = 0, c1 = 0, r2 = 0, c2 = 1\<rparr>,
     score = 2, is_terminal = False, is_unset = False\<rparr>"

definition engine_with_cache :: Searcher where
  "engine_with_cache =
     \<lparr>root = Node_default, best_moves = replicate 5 Node_default,
      ordered_moves = [board_2x2 \<mapsto> [cached_child], board_1x2 \<mapsto> [cached_child]]\<rparr>"







definition marks_only :: "DomineeringState \<Rightarrow> DomineeringState \<Rightarrow> bool" where
  "marks_only s s' =
     (ROWS s' = ROWS s \<and> COLS s' = COLS s \<and> who s' = who s \<and>
      length (board s') = length (board s) \<and>
      (\<forall>i < length (board s). length (board s' ! i) = length (board s ! i) \<and>
         (\<forall>j < length (board s ! i).
            board s' ! i ! j = board s ! i ! j \<or>
            (board s ! i ! j = EMPTYSYM \<and> board s' ! i ! j = MARKEDSYM))))"

definition same_shape :: "DomineeringState \<Rightarrow> DomineeringState \<Rightarrow> bool" where
  "same_shape s s' =
     (ROWS s' = ROWS s \<and> COLS s' = COLS s \<and> who s' = who s \<and>
      list_all2 (\<lambda>row row'. length row' = length row) (board s) (board s'))"

definition clear_cell :: "char \<Rightarrow> char" where
  "clear_cell x = (if x = MARKEDSYM then EMPTYSYM else x)"

definition clears :: "(nat \<times> nat) set \<Rightarrow> DomineeringState \<Rightarrow> DomineeringState \<Rightarrow> bool" where
  "clears A st st' =
     (same_shape st st' \<and>
      (\<forall>a b. a < length (board st) \<longrightarrow> b < length (board st ! a) \<longrightarrow>
         board st' ! a ! b =
           (if (a, b) \<in> A then clear_cell (board st ! a ! b) else board st ! a ! b)))"


text \<open>
  The minimax value that the spec's "minimax consistency" speaks of, written from the spec's
  words: at the horizon (no ply left) the static evaluation of the position; above it the
  maximum (Home) or minimum (Away) of the values of the children the move generator gives,
  each on the position after its placement.  \<open>playable n\<close> says that every position of
  the tree within \<open>n\<close> plies has a legal placement, so that the search meets no terminal
  node.
\<close>

fun minimax :: "nat \<Rightarrow> Node \<Rightarrow> DomineeringState \<Rightarrow> int" where
  "minimax 0 parent current_state = evaluate current_state"
| "minimax (Suc n) parent current_state =
     (let values = map (\<lambda>child. minimax n child (tap child (togglePlayer current_state)))
                     (expand parent current_state)
      in if team parent = HOME then fold max values NEG_INF else fold min values POS_INF)"

fun playable :: "nat \<Rightarrow> Node \<Rightarrow> DomineeringState \<Rightarrow> bool" where
  "playable 0 parent current_state = True"
| "playable (Suc n) parent current_state =
     (expand parent current_state \<noteq> [] \<and>
      list_all (\<lambda>child. playable n child (tap child (togglePlayer current_state)))
        (expand parent current_state))"

text \<open>
  For the proof that the search computes this value: the fail-soft relation between the value
  \<open>v\<close> of a node and the score \<open>r\<close> a search with window \<open>(a, b)\<close> records for it;
  windows inside the sentinels; the comparison and the choice of a team; an engine none of
  whose best nodes is marked terminal; and the invariant of the loop over the children, which
  relates the best score \<open>m\<close> and the window \<open>ab\<close> the loop has reached to the window
  \<open>ab0\<close> it started with and the minimax value \<open>M\<close> of the children visited.
\<close>

definition fail_soft :: "int \<Rightarrow> int \<Rightarrow> int \<Rightarrow> int \<Rightarrow> bool" where
  "fail_soft a b v r = ((r \<le> a \<longrightarrow> v \<le> r) \<and> (a < r \<and> r < b \<longrightarrow> r = v) \<and> (b \<le> r \<longrightarrow> r \<le> v))"

definition approx :: "bool \<Rightarrow> AlphaBeta \<Rightarrow> int \<Rightarrow> int \<Rightarrow> bool" where
  "approx prune ab v r = (if prune then fail_soft (alpha ab) (beta ab) v r else r = v)"

definition window_ok :: "AlphaBeta \<Rightarrow> bool" where
  "window_ok ab = (NEG_INF \<le> alpha ab \<and> alpha ab < beta ab \<and> beta ab \<le> POS_INF)"

definition better :: "Who \<Rightarrow> int \<Rightarrow> int \<Rightarrow> bool" where
  "better t r m = (if t = HOME then r > m else r < m)"

definition pick :: "Who \<Rightarrow> int \<Rightarrow> int \<Rightarrow> int" where
  "pick t x y = (if t = HOME then max x y else min x y)"

definition all_live :: "Searcher \<Rightarrow> bool" where
  "all_live sr = list_all (\<lambda>n. \<not> is_terminal n) (best_moves sr)"

definition loop_inv :: "bool \<Rightarrow> Who \<Rightarrow> AlphaBeta \<Rightarrow> int \<Rightarrow> AlphaBeta \<Rightarrow> int \<Rightarrow> bool" where
  "loop_inv prune t ab0 m ab M =
     (if prune then
        window_ok ab \<and>
        (if t = HOME
         then alpha ab = max (alpha ab0) m \<and> beta ab = beta ab0 \<and>
              (m \<le> alpha ab0 \<longrightarrow> M \<le> m) \<and> (alpha ab0 < m \<longrightarrow> M = m)
         else beta ab = min (beta ab0) m \<and> alpha ab = alpha ab0 \<and>
              (beta ab0 \<le> m \<longrightarrow> m \<le> M) \<and> (m < beta ab0 \<longrightarrow> M = m))
      else m = M)"

text \<open>
  The children's backed-up scores that the spec's "minimax consistency" speaks of: the loop of
  \<open>search_under\<close> run once more, collecting for every child it visits the best node that the
  call on the child left at the child's own depth.  The list stops where the loop stops: at
  the last child, at a cutoff, or at a child that reports a terminal node.
\<close>

fun visited_children ::
    "bool \<Rightarrow> nat \<Rightarrow> Searcher \<Rightarrow> Node \<Rightarrow> AlphaBeta \<Rightarrow> DomineeringState \<Rightarrow> DomineeringState \<Rightarrow> nat
       \<Rightarrow> Node list \<Rightarrow> Node list" where
  "visited_children prune fuel sr parent ab current_state next_state depth_limit [] = []"
| "visited_children prune fuel sr parent ab current_state next_state depth_limit (child # rest) =
     (let next_state = tap child next_state in
      case search_under_gen prune fuel sr child ab next_state depth_limit of
        Inl e \<Rightarrow> []
      | Inr sr \<Rightarrow>
          let next_state = untap child next_state;
              backed_up = best_moves sr ! depth child
          in case record_child prune sr parent ab current_state next_state child of
               Inl e \<Rightarrow> []
             | Inr (Return sr) \<Rightarrow> [backed_up]
             | Inr (Continue sr ab) \<Rightarrow>
                 backed_up # visited_children prune fuel sr parent ab current_state next_state
                               depth_limit rest)"

definition backed_up_children ::
    "bool \<Rightarrow> nat \<Rightarrow> Searcher \<Rightarrow> Node \<Rightarrow> AlphaBeta \<Rightarrow> DomineeringState \<Rightarrow> nat \<Rightarrow> Node list" where
  "backed_up_children prune fuel sr parent ab current_state depth_limit =
     (let children = fst (get_children sr parent current_state);
          sr = reset_best (snd (get_children sr parent current_state)) parent
      in visited_children prune fuel sr parent ab current_state (togglePlayer current_state)
           depth_limit children)"

text \<open>
  The empty 3 by 4 board; the position after Home's placement in the second row and Away's
  reply in the last column, for which a search of the empty board with depth limit 3 leaves
  an ordering; and the engine after that search.
\<close>

definition empty_3x4 :: DomineeringState where
  "empty_3x4 = \<lparr>ROWS = 3, COLS = 4, board = [''....'', ''....'', ''....''], who = HOME\<rparr>"

definition reply_3x4 :: DomineeringState where
  "reply_3x4 = \<lparr>ROWS = 3, COLS = 4, board = [''...B'', ''WW.B'', ''....''], who = HOME\<rparr>"

definition engine_after_3x4 :: Searcher where
  "engine_after_3x4 = snd (projr (search 4 (fresh_engine HOME) empty_3x4 3))"

text \<open>A 3 by 3 position with two occupied cells, Home to move.\<close>

definition board_3x3 :: DomineeringState where
  "board_3x3 = \<lparr>ROWS = 3, COLS = 3, board = [''.B.'', ''...'', ''..B''], who = HOME\<rparr>"

text \<open>
  On that position: an engine with a best-moves table for depth limit 2, the node
  of Home's second move, the position after it, and a window whose lower bound is 2.
\<close>

definition engine_depth2 :: Searcher where
  "engine_depth2 = (fresh_engine HOME)\<lparr>best_moves := replicate 3 Node_default\<rparr>"

definition second_move :: Node where
  "second_move = Node_new AWAY 1 \<lparr>r1 = 1, c1 = 1, r2 = 1, c2 = 2\<rparr>"

definition after_second_move :: DomineeringState where
  "after_second_move = tap second_move (togglePlayer board_3x3)"

definition narrow_window :: AlphaBeta where
  "narrow_window = \<lparr>alpha = 2, beta = POS_INF\<rparr>"

section \<open>Basic facts\<close>

subsection \<open>Cells\<close>

lemma setCell_dims [simp]:
  "ROWS (setCell s r c v) = ROWS s"
  "COLS (setCell s r c v) = COLS s"
  "who (setCell s r c v) = who s"
  "length (board (setCell s r c v)) = length (board s)"
  by (simp_all add: setCell_def)

lemma setCell_row_length [simp]:
  "length (board (setCell s r c v) ! i) = length (board s ! i)"
  by (cases "i = r") (simp_all add: setCell_def)

lemma setCell_nth:
  "i < length (board s) \<Longrightarrow> j < length (board s ! i) \<Longrightarrow>
   board (setCell s r c v) ! i ! j = (if i = r \<and> j = c then v else board s ! i ! j)"
  by (cases "i = r"; cases "j = c") (simp_all add: setCell_def)

lemma state_eqI:
  fixes s t :: DomineeringState
  assumes "ROWS s = ROWS t" "COLS s = COLS t" "who s = who t"
    and "length (board s) = length (board t)"
    and "\<And>i. i < length (board t) \<Longrightarrow> length (board s ! i) = length (board t ! i)"
    and "\<And>i j. i < length (board t) \<Longrightarrow> j < length (board t ! i) \<Longrightarrow>
           board s ! i ! j = board t ! i ! j"
  shows "s = t"
proof -
  have "board s = board t"
  proof (rule nth_equalityI)
    show "length (board s) = length (board t)" by fact
  next
    fix i assume "i < length (board s)"
    then have it: "i < length (board t)" using assms(4) by simp
    show "board s ! i = board t ! i"
      by (rule nth_equalityI) (use assms(5,6) it in auto)
  qed
  with assms(1-3) show ?thesis by simp
qed

lemma moveOK_cells:
  assumes "moveOK s m"
  shows "r1 m < length (board s) \<Longrightarrow> c1 m < length (board s ! r1 m) \<Longrightarrow>
           board s ! r1 m ! c1 m = EMPTYSYM"
    and "r2 m < length (board s) \<Longrightarrow> c2 m < length (board s ! r2 m) \<Longrightarrow>
           board s ! r2 m ! c2 m = EMPTYSYM"
  using assms by (simp_all add: moveOK_def getCell_def)

lemma moveOK_togglePlayer [simp]: "moveOK (togglePlayer s) m = moveOK s m"
  by (simp add: moveOK_def togglePlayer_def getCell_def)

lemma untap_tap:
  assumes "moveOK state (parent_move node)"
  shows "untap node (tap node state) = state"
proof (rule state_eqI)
  fix i j assume "i < length (board state)" "j < length (board state ! i)"
  then show "board (untap node (tap node state)) ! i ! j = board state ! i ! j"
    using moveOK_cells[OF assms]
    by (auto simp: untap_def tap_def Let_def setCell_nth)
qed (simp_all add: untap_def tap_def Let_def)

subsection \<open>The move generator as a filter over the row-major enumeration\<close>

lemma expand_cell_eq:
  "expand_cell parent s ra ca acc =
     acc @ map (child_of parent)
             (filter (\<lambda>p. moveOK s (candidate (team parent) p)) [(ra, ca)])"
  by (simp add: expand_cell_def child_of_def candidate_def Let_def)

lemma expand_row:
  "fold (\<lambda>ca children. expand_cell parent s ra ca children) cols acc =
     acc @ map (child_of parent)
             (filter (\<lambda>p. moveOK s (candidate (team parent) p)) (map (Pair ra) cols))"
proof (induction cols arbitrary: acc)
  case Nil
  then show ?case by simp
next
  case (Cons ca cols)
  have "fold (\<lambda>ca children. expand_cell parent s ra ca children) (ca # cols) acc =
        fold (\<lambda>ca children. expand_cell parent s ra ca children) cols
          (expand_cell parent s ra ca acc)"
    by simp
  also have "\<dots> = expand_cell parent s ra ca acc @
      map (child_of parent)
        (filter (\<lambda>p. moveOK s (candidate (team parent) p)) (map (Pair ra) cols))"
    by (rule Cons.IH)
  finally show ?case by (simp add: expand_cell_eq)
qed

lemma expand_rows:
  "fold (\<lambda>ra children.
           fold (\<lambda>ca children. expand_cell parent s ra ca children) cols children) rows acc =
     acc @ map (child_of parent)
             (filter (\<lambda>p. moveOK s (candidate (team parent) p)) (List.product rows cols))"
proof (induction rows arbitrary: acc)
  case Nil
  then show ?case by simp
next
  case (Cons ra rows)
  let ?row = "\<lambda>ra children.
      fold (\<lambda>ca children. expand_cell parent s ra ca children) cols children"
  have "fold ?row (ra # rows) acc = fold ?row rows (?row ra acc)"
    by simp
  also have "\<dots> = ?row ra acc @
      map (child_of parent)
        (filter (\<lambda>p. moveOK s (candidate (team parent) p)) (List.product rows cols))"
    by (rule Cons.IH)
  finally show ?case by (simp add: expand_row)
qed

lemma expand_eq:
  "expand parent s =
     map (child_of parent)
       (filter (\<lambda>p. moveOK s (candidate (team parent) p))
          (List.product [0 ..< ROWS s] [0 ..< COLS s]))"
  by (simp add: expand_def expand_rows)

lemma expand_moveOK:
  "child \<in> set (expand parent s) \<Longrightarrow> moveOK s (parent_move child)"
  by (auto simp: expand_eq child_of_def Node_new_def)

lemma expand_depth:
  "child \<in> set (expand parent s) \<Longrightarrow> depth child = depth parent + 1"
  by (auto simp: expand_eq child_of_def Node_new_def)

lemma expand_team:
  "child \<in> set (expand parent s) \<Longrightarrow> team child = (if team parent = HOME then AWAY else HOME)"
  by (auto simp: expand_eq child_of_def Node_new_def)

lemma expand_cell_part_000_eq:
  "expand_cell_part_000 parent s ra ca acc =
     acc @ map (\<lambda>p. Node_new (who s) (depth parent + 1) (candidate (who s) p))
             (filter (\<lambda>p. moveOK s (candidate (who s) p)) [(ra, ca)])"
  by (simp add: expand_cell_part_000_def candidate_def Let_def)

lemma expand_row_part_000:
  "fold (\<lambda>ca children. expand_cell_part_000 parent s ra ca children) cols acc =
     acc @ map (\<lambda>p. Node_new (who s) (depth parent + 1) (candidate (who s) p))
             (filter (\<lambda>p. moveOK s (candidate (who s) p)) (map (Pair ra) cols))"
proof (induction cols arbitrary: acc)
  case Nil
  then show ?case by simp
next
  case (Cons ca cols)
  have "fold (\<lambda>ca children. expand_cell_part_000 parent s ra ca children) (ca # cols) acc =
        fold (\<lambda>ca children. expand_cell_part_000 parent s ra ca children) cols
          (expand_cell_part_000 parent s ra ca acc)"
    by simp
  also have "\<dots> = expand_cell_part_000 parent s ra ca acc @
      map (\<lambda>p. Node_new (who s) (depth parent + 1) (candidate (who s) p))
        (filter (\<lambda>p. moveOK s (candidate (who s) p)) (map (Pair ra) cols))"
    by (rule Cons.IH)
  finally show ?case by (simp add: expand_cell_part_000_eq)
qed

lemma expand_rows_part_000:
  "fold (\<lambda>ra children.
           fold (\<lambda>ca children. expand_cell_part_000 parent s ra ca children) cols children)
       rows acc =
     acc @ map (\<lambda>p. Node_new (who s) (depth parent + 1) (candidate (who s) p))
             (filter (\<lambda>p. moveOK s (candidate (who s) p)) (List.product rows cols))"
proof (induction rows arbitrary: acc)
  case Nil
  then show ?case by simp
next
  case (Cons ra rows)
  let ?row = "\<lambda>ra children.
      fold (\<lambda>ca children. expand_cell_part_000 parent s ra ca children) cols children"
  have "fold ?row (ra # rows) acc = fold ?row rows (?row ra acc)"
    by simp
  also have "\<dots> = ?row ra acc @
      map (\<lambda>p. Node_new (who s) (depth parent + 1) (candidate (who s) p))
        (filter (\<lambda>p. moveOK s (candidate (who s) p)) (List.product rows cols))"
    by (rule Cons.IH)
  finally show ?case by (simp add: expand_row_part_000)
qed

lemma expand_part_000_eq:
  "expand_part_000 parent s =
     map (\<lambda>p. Node_new (who s) (depth parent + 1) (candidate (who s) p))
       (filter (\<lambda>p. moveOK s (candidate (who s) p))
          (List.product [0 ..< ROWS s] [0 ..< COLS s]))"
  by (simp add: expand_part_000_def expand_rows_part_000)

lemma row_major_product:
  assumes "sorted_wrt (<) xs" "sorted_wrt (<) ys"
  shows "sorted_wrt row_major (List.product xs ys)"
  using assms(1)
proof (induction xs)
  case Nil
  then show ?case by simp
next
  case (Cons x xs)
  have 1: "sorted_wrt row_major (map (Pair x) ys)"
    using assms(2) by (simp add: sorted_wrt_map row_major_def)
  have 2: "sorted_wrt row_major (List.product xs ys)" using Cons by simp
  have 3: "\<forall>p\<in>set (map (Pair x) ys). \<forall>q\<in>set (List.product xs ys). row_major p q"
    using Cons.prems by (auto simp: row_major_def)
  show ?case using 1 2 3 by (simp add: sorted_wrt_append)
qed

lemma first_cell_child: "first_cell (Node_new t d (candidate t' p)) = p"
  by (simp add: first_cell_def Node_new_def candidate_def)

lemma row_major_expand:
  "sorted_wrt row_major (map first_cell (expand parent s))"
proof -
  have "map first_cell (expand parent s) =
      filter (\<lambda>p. moveOK s (candidate (team parent) p)) (List.product [0 ..< ROWS s] [0 ..< COLS s])"
    by (simp add: expand_eq child_of_def first_cell_child comp_def)
  moreover have "sorted_wrt row_major (List.product [0 ..< ROWS s] [0 ..< COLS s])"
    by (rule row_major_product) (simp_all add: strict_sorted_iff[symmetric])
  ultimately show ?thesis by (simp add: sorted_wrt_filter)
qed

lemma row_major_expand_part_000:
  "sorted_wrt row_major (map first_cell (expand_part_000 parent s))"
proof -
  have "map first_cell (expand_part_000 parent s) =
      filter (\<lambda>p. moveOK s (candidate (who s) p)) (List.product [0 ..< ROWS s] [0 ..< COLS s])"
    by (simp add: expand_part_000_eq first_cell_child comp_def)
  moreover have "sorted_wrt row_major (List.product [0 ..< ROWS s] [0 ..< COLS s])"
    by (rule row_major_product) (simp_all add: strict_sorted_iff[symmetric])
  ultimately show ?thesis by (simp add: sorted_wrt_filter)
qed

subsection \<open>The loop of \<open>search_under\<close>\<close>

lemma map_sum_fst_Inr [simp]: "map_sum id fst x = Inr a \<longleftrightarrow> (\<exists>b. x = Inr (a, b))"
  by (cases x) auto

lemma search_children_Cons_Inr:
  assumes "search_children prune fuel sr parent ab cs ns dl (child # rest) = Inr res"
  obtains (Return) sr1 sr2 where
      "search_under_gen prune fuel sr child ab (tap child ns) dl = Inr sr1"
      "record_child prune sr1 parent ab cs (untap child (tap child ns)) child = Inr (Return sr2)"
      "res = (sr2, untap child (tap child ns))"
  | (Continue) sr1 sr2 ab2 where
      "search_under_gen prune fuel sr child ab (tap child ns) dl = Inr sr1"
      "record_child prune sr1 parent ab cs (untap child (tap child ns)) child
         = Inr (Continue sr2 ab2)"
      "search_children prune fuel sr2 parent ab2 cs (untap child (tap child ns)) dl rest
         = Inr res"
  using assms by (auto simp: Let_def split: sum.splits step.splits)

lemma search_children_next_state:
  assumes "\<forall>child \<in> set children. moveOK next_state (parent_move child)"
    and "search_children prune fuel sr parent ab cs next_state dl children = Inr (sr', ns')"
  shows "ns' = next_state"
  using assms
proof (induction children arbitrary: sr ab)
  case Nil
  then show ?case by simp
next
  case (Cons child rest)
  have rt: "untap child (tap child next_state) = next_state"
    using Cons.prems(1) by (simp add: untap_tap)
  from Cons.prems(2) show ?case
  proof (cases rule: search_children_Cons_Inr)
    case (Return sr1 sr2)
    then show ?thesis by (simp add: rt)
  next
    case (Continue sr1 sr2 ab2)
    then show ?thesis using Cons.IH[of sr2 ab2] Cons.prems(1) by (simp add: rt)
  qed
qed

subsection \<open>Unfolding one call\<close>

lemma get_children_simps [simp]:
  "best_moves (snd (get_children sr p cs)) = best_moves sr"
  "root (snd (get_children sr p cs)) = root sr"
  by (simp_all add: get_children_def split: option.splits)

lemma get_children_expand:
  "depth p = 0 \<longrightarrow> ordered_moves sr cs = None \<Longrightarrow> get_children sr p cs = (expand p cs, sr)"
  by (auto simp: get_children_def split: option.splits)

lemma reset_best_simps [simp]:
  "length (best_moves (reset_best sr p)) = length (best_moves sr)"
  "root (reset_best sr p) = root sr"
  "ordered_moves (reset_best sr p) = ordered_moves sr"
  by (simp_all add: reset_best_def)

lemma search_under_gen_Suc_Inr:
  assumes "search_under_gen prune (Suc fuel) sr parent ab cs dl = Inr sr'"
  obtains (Horizon) "dl \<le> depth parent" "depth parent < length (best_moves sr)"
      "sr' = sr\<lparr>best_moves := (best_moves sr)[depth parent := set_score parent (evaluate cs)]\<rparr>"
  | (Terminal) "depth parent < dl" "depth parent < length (best_moves sr)"
      "fst (get_children sr parent cs) = []"
      "sr' = (snd (get_children sr parent cs))\<lparr>best_moves := (best_moves sr)
               [depth parent := set_as_terminal parent cs]\<rparr>"
  | (Interior) ns' where "depth parent < dl" "depth parent < length (best_moves sr)"
      "fst (get_children sr parent cs) \<noteq> []"
      "search_children prune fuel (reset_best (snd (get_children sr parent cs)) parent) parent ab cs
         (togglePlayer cs) dl (fst (get_children sr parent cs)) = Inr (sr', ns')"
  using assms by (auto simp: Let_def split: if_splits)

lemma record_child_Inr:
  assumes "record_child prune sr parent ab cs ns child = Inr st"
  shows "depth parent + 1 < length (best_moves sr)"
  using assms by (auto simp: record_child_def split: if_splits)

lemma record_child_length:
  "record_child prune sr p ab cs ns child = Inr (Return sr') \<Longrightarrow> length (best_moves sr') = length (best_moves sr)"
  "record_child prune sr p ab cs ns child = Inr (Continue sr' ab') \<Longrightarrow> length (best_moves sr') = length (best_moves sr)"
  by (auto simp: record_child_def Let_def split: if_splits)

lemma record_child_root:
  "record_child prune sr p ab cs ns child = Inr (Return sr') \<Longrightarrow> root sr' = root sr"
  "record_child prune sr p ab cs ns child = Inr (Continue sr' ab') \<Longrightarrow> root sr' = root sr"
  by (auto simp: record_child_def Let_def split: if_splits)

lemma record_child_cache:
  "record_child prune sr p ab cs ns child = Inr (Return sr') \<Longrightarrow> depth p \<noteq> 2 \<Longrightarrow> ordered_moves sr' = ordered_moves sr"
  "record_child prune sr p ab cs ns child = Inr (Continue sr' ab') \<Longrightarrow> depth p \<noteq> 2 \<Longrightarrow> ordered_moves sr' = ordered_moves sr"
  by (auto simp: record_child_def Let_def split: if_splits)

lemma search_children_length:
  assumes IH: "\<And>sr child ab ns sr'. search_under_gen prune fuel sr child ab ns dl = Inr sr' \<Longrightarrow>
                 length (best_moves sr') = length (best_moves sr)"
  shows "search_children prune fuel sr parent ab cs ns dl kids = Inr (sr', ns') \<Longrightarrow>
           length (best_moves sr') = length (best_moves sr)"
proof (induction kids arbitrary: sr ab ns)
  case Nil
  then show ?case by simp
next
  case (Cons child rest)
  from Cons.prems show ?case
  proof (cases rule: search_children_Cons_Inr)
    case (Return sr1 sr2)
    then show ?thesis using IH[of sr child ab _ sr1] record_child_length(1)[of prune sr1] by simp
  next
    case (Continue sr1 sr2 ab2)
    then show ?thesis using IH[of sr child ab _ sr1] record_child_length(2)[of prune sr1] Cons.IH[of sr2 ab2]
      by simp
  qed
qed

lemma search_under_gen_length:
  "search_under_gen prune fuel sr parent ab cs dl = Inr sr' \<Longrightarrow>
     length (best_moves sr') = length (best_moves sr)"
proof (induction fuel arbitrary: sr parent ab cs sr')
  case 0
  then show ?case by simp
next
  case (Suc fuel)
  from Suc.prems show ?case
  proof (cases rule: search_under_gen_Suc_Inr)
    case Horizon
    then show ?thesis by simp
  next
    case Terminal
    then show ?thesis by simp
  next
    case (Interior ns')
    from search_children_length[OF Suc.IH Interior(4)] show ?thesis by simp
  qed
qed

subsection \<open>A scheme for frame properties of the engine\<close>

text \<open>
  A relation between the engine before and after a call that is reflexive, transitive and
  holds for each elementary update of \<open>search_under\<close> at the nodes of a class closed under
  child generation holds for the whole call.
\<close>

lemma search_children_invariant:
  fixes R :: "Searcher \<Rightarrow> Searcher \<Rightarrow> bool" and V :: "Node \<Rightarrow> bool"
  assumes refl: "\<And>sr. R sr sr" and trans: "\<And>a b c. R a b \<Longrightarrow> R b c \<Longrightarrow> R a c"
    and IH: "\<And>sr k ab ns sr'. search_under_gen prune fuel sr k ab ns dl = Inr sr' \<Longrightarrow> V k \<Longrightarrow> R sr sr'"
    and rec: "\<And>sr ab ns k st. record_child prune sr p ab cs ns k = Inr st \<Longrightarrow>
                R sr (case st of Return sr' \<Rightarrow> sr' | Continue sr' ab' \<Rightarrow> sr')"
  shows "search_children prune fuel sr p ab cs ns dl kids = Inr (sr', ns') \<Longrightarrow>
           \<forall>k\<in>set kids. V k \<Longrightarrow> R sr sr'"
proof (induction kids arbitrary: sr ab ns)
  case Nil
  then show ?case by (simp add: refl)
next
  case (Cons child rest)
  from Cons.prems(1) show ?case
  proof (cases rule: search_children_Cons_Inr)
    case (Return sr1 sr2)
    have "R sr sr1" using IH[OF Return(1)] Cons.prems(2) by simp
    moreover have "R sr1 sr2" using rec[OF Return(2)] by simp
    ultimately show ?thesis using Return(3) trans by blast
  next
    case (Continue sr1 sr2 ab2)
    have "R sr sr1" using IH[OF Continue(1)] Cons.prems(2) by simp
    moreover have "R sr1 sr2" using rec[OF Continue(2)] by simp
    moreover have "R sr2 sr'" using Cons.IH[OF Continue(3)] Cons.prems(2) by simp
    ultimately show ?thesis using trans by blast
  qed
qed

lemma search_under_gen_invariant:
  fixes R :: "Searcher \<Rightarrow> Searcher \<Rightarrow> bool" and V :: "Node \<Rightarrow> bool"
  assumes refl: "\<And>sr. R sr sr" and trans: "\<And>a b c. R a b \<Longrightarrow> R b c \<Longrightarrow> R a c"
    and horizon: "\<And>sr p cs. V p \<Longrightarrow> dl \<le> depth p \<Longrightarrow> depth p < length (best_moves sr) \<Longrightarrow>
        R sr (sr\<lparr>best_moves := (best_moves sr)[depth p := set_score p (evaluate cs)]\<rparr>)"
    and gen: "\<And>sr p cs. V p \<Longrightarrow> depth p < dl \<Longrightarrow>
        R sr (snd (get_children sr p cs)) \<and> (\<forall>k\<in>set (fst (get_children sr p cs)). V k)"
    and terminal: "\<And>sr p cs. V p \<Longrightarrow> depth p < dl \<Longrightarrow> depth p < length (best_moves sr) \<Longrightarrow>
        R sr (sr\<lparr>best_moves := (best_moves sr)[depth p := set_as_terminal p cs]\<rparr>)"
    and reset: "\<And>sr p. V p \<Longrightarrow> depth p < dl \<Longrightarrow> depth p < length (best_moves sr) \<Longrightarrow>
        R sr (reset_best sr p)"
    and rec: "\<And>sr p ab cs ns k st. V p \<Longrightarrow> depth p < dl \<Longrightarrow>
        record_child prune sr p ab cs ns k = Inr st \<Longrightarrow>
        R sr (case st of Return sr' \<Rightarrow> sr' | Continue sr' ab' \<Rightarrow> sr')"
  shows "search_under_gen prune fuel sr p ab cs dl = Inr sr' \<Longrightarrow> V p \<Longrightarrow> R sr sr'"
proof (induction fuel arbitrary: sr p ab cs sr')
  case 0
  then show ?case by simp
next
  case (Suc fuel)
  let ?g = "snd (get_children sr p cs)"
  from Suc.prems(1) show ?case
  proof (cases rule: search_under_gen_Suc_Inr)
    case Horizon
    then show ?thesis using horizon[OF Suc.prems(2)] by simp
  next
    case Terminal
    have "R sr ?g" using gen[OF Suc.prems(2) Terminal(1)] by simp
    moreover have "R ?g sr'"
      using terminal[OF Suc.prems(2) Terminal(1), of ?g cs] Terminal(2,4) by simp
    ultimately show ?thesis using trans by blast
  next
    case (Interior ns')
    have g: "R sr ?g" "\<forall>k\<in>set (fst (get_children sr p cs)). V k"
      using gen[OF Suc.prems(2) Interior(1)] by simp_all
    have r: "R ?g (reset_best ?g p)"
      using reset[OF Suc.prems(2) Interior(1), of ?g] Interior(2) by simp
    have "R (reset_best ?g p) sr'"
      by (rule search_children_invariant[where R = R and V = V, OF refl trans Suc.IH
            rec[OF Suc.prems(2) Interior(1)] Interior(4) g(2)])
    with g(1) r show ?thesis using trans by blast
  qed
qed

lemma root_unchanged:
  "search_under_gen prune fuel sr p ab cs dl = Inr sr' \<Longrightarrow> root sr' = root sr"
  by (rule search_under_gen_invariant[where R = "\<lambda>a b. root b = root a" and V = "\<lambda>_. True"])
     (auto simp: record_child_def Let_def reset_best_def split: if_splits step.splits)

lemma cache_frame:
  assumes "search_under_gen prune fuel sr p ab cs dl = Inr sr'"
    and "0 < depth p" and "2 < depth p \<or> dl \<le> 2"
  shows "ordered_moves sr' = ordered_moves sr"
proof (rule search_under_gen_invariant[where R = "\<lambda>a b. ordered_moves b = ordered_moves a"
        and V = "\<lambda>k. 0 < depth k \<and> (2 < depth k \<or> dl \<le> 2)", OF _ _ _ _ _ _ _ assms(1)])
  fix sr :: Searcher and p :: Node and cs
  assume "0 < depth p \<and> (2 < depth p \<or> dl \<le> 2)" "depth p < dl"
  then show "ordered_moves (snd (get_children sr p cs)) = ordered_moves sr \<and>
       (\<forall>k\<in>set (fst (get_children sr p cs)). 0 < depth k \<and> (2 < depth k \<or> dl \<le> 2))"
    by (auto simp: get_children_def dest: expand_depth split: option.splits)
next
  fix sr :: Searcher and p :: Node and ab cs ns k st
  assume "0 < depth p \<and> (2 < depth p \<or> dl \<le> 2)" "depth p < dl"
    "record_child prune sr p ab cs ns k = Inr st"
  then show "ordered_moves (case st of Return sr' \<Rightarrow> sr' | Continue sr' ab' \<Rightarrow> sr') = ordered_moves sr"
    by (auto simp: record_child_def Let_def split: if_splits step.splits)
qed (use assms in \<open>auto simp: reset_best_def\<close>)

subsection \<open>The move-order cache\<close>

lemma record_child_cache_other:
  assumes "record_child prune sr p ab cs ns k = Inr st"
  shows "depth p \<noteq> 2 \<Longrightarrow> ordered_moves (case st of Return sr' \<Rightarrow> sr' | Continue sr' ab' \<Rightarrow> sr') = ordered_moves sr"
    and "key \<noteq> cs \<Longrightarrow> ordered_moves (case st of Return sr' \<Rightarrow> sr' | Continue sr' ab' \<Rightarrow> sr') key = ordered_moves sr key"
  using assms by (auto simp: record_child_def Let_def split: if_splits step.splits)

lemma search_children_cache_frame:
  assumes "search_children prune fuel sr p ab cs ns dl kids = Inr (sr', ns')"
    and "\<forall>k\<in>set kids. 0 < depth k \<and> (2 < depth k \<or> dl \<le> 2)"
  shows "depth p \<noteq> 2 \<Longrightarrow> ordered_moves sr' = ordered_moves sr"
    and "key \<noteq> cs \<Longrightarrow> ordered_moves sr' key = ordered_moves sr key"
proof -
  show "ordered_moves sr' = ordered_moves sr" if "depth p \<noteq> 2"
    by (rule search_children_invariant[where R = "\<lambda>a b. ordered_moves b = ordered_moves a"
          and V = "\<lambda>k. 0 < depth k \<and> (2 < depth k \<or> dl \<le> 2)", OF _ _ _ _ assms(1,2)])
       (use that in \<open>auto simp: cache_frame record_child_cache_other(1)\<close>)
  show "ordered_moves sr' key = ordered_moves sr key" if "key \<noteq> cs"
    by (rule search_children_invariant[where R = "\<lambda>a b. ordered_moves b key = ordered_moves a key"
          and V = "\<lambda>k. 0 < depth k \<and> (2 < depth k \<or> dl \<le> 2)", OF _ _ _ _ assms(1,2)])
       (use that in \<open>auto simp: cache_frame record_child_cache_other(2)\<close>)
qed

lemma get_children_consume:
  "depth p = 0 \<Longrightarrow> ordered_moves sr cs = Some kids \<Longrightarrow>
     get_children sr p cs = (kids, sr\<lparr>ordered_moves := Map.empty\<rparr>)"
  by (simp add: get_children_def)

lemma consumed_cache_empty:
  assumes "depth p = 0" "ordered_moves sr cs = Some kids" "\<forall>k\<in>set kids. 2 < depth k"
    and "search_under_gen prune fuel sr p ab cs dl = Inr sr'" "0 < dl"
  shows "ordered_moves sr' = Map.empty"
proof (cases fuel)
  case 0
  with assms(4) show ?thesis by simp
next
  case (Suc f)
  note g = get_children_consume[OF assms(1,2)]
  from assms(4)[unfolded Suc] show ?thesis
  proof (cases rule: search_under_gen_Suc_Inr)
    case Horizon
    then show ?thesis using assms(1,5) by simp
  next
    case Terminal
    then show ?thesis by (simp add: g)
  next
    case (Interior ns')
    have "ordered_moves sr' = ordered_moves (reset_best (snd (get_children sr p cs)) p)"
      by (rule search_children_cache_frame(1)[OF Interior(4)]) (use assms(1,3) g in auto)
    then show ?thesis by (simp add: g)
  qed
qed


subsection \<open>Fuel: more is the same, and the depth limit plus one is enough\<close>

lemma search_children_fuel_Suc:
  assumes IH: "\<And>sr k ab ns sr'. search_under_gen prune f sr k ab ns dl = Inr sr' \<Longrightarrow>
                 search_under_gen prune (Suc f) sr k ab ns dl = Inr sr'"
  shows "search_children prune f sr p ab cs ns dl kids = Inr res \<Longrightarrow>
         search_children prune (Suc f) sr p ab cs ns dl kids = Inr res"
proof (induction kids arbitrary: sr ab ns)
  case Nil
  then show ?case by simp
next
  case (Cons child rest)
  from Cons.prems show ?case
  proof (cases rule: search_children_Cons_Inr)
    case (Return sr1 sr2)
    then show ?thesis using IH[OF Return(1)] by (simp add: Let_def)
  next
    case (Continue sr1 sr2 ab2)
    then show ?thesis using IH[OF Continue(1)] Cons.IH[OF Continue(3)] by (simp add: Let_def)
  qed
qed

lemma search_under_gen_fuel_Suc:
  "search_under_gen prune f sr p ab cs dl = Inr sr' \<Longrightarrow>
   search_under_gen prune (Suc f) sr p ab cs dl = Inr sr'"
proof (induction f arbitrary: sr p ab cs sr')
  case 0
  then show ?case by simp
next
  case (Suc f)
  from Suc.prems show ?case
  proof (cases rule: search_under_gen_Suc_Inr)
    case Horizon
    then show ?thesis by simp
  next
    case Terminal
    then show ?thesis by (simp add: Let_def)
  next
    case (Interior ns')
    from search_children_fuel_Suc[OF Suc.IH Interior(4)] Interior(1,2,3)
    show ?thesis by (simp add: Let_def)
  qed
qed

lemma search_under_gen_fuel_mono:
  assumes "search_under_gen prune f sr p ab cs dl = Inr sr'" "f \<le> f'"
  shows "search_under_gen prune f' sr p ab cs dl = Inr sr'"
  using assms(2,1)
proof (induction rule: dec_induct)
  case base
  then show ?case .
next
  case (step n)
  then show ?case by (blast intro: search_under_gen_fuel_Suc)
qed

lemma record_child_succeeds:
  "depth p + 1 < length (best_moves sr) \<Longrightarrow> \<exists>st. record_child prune sr p ab cs ns k = Inr st"
  by (simp add: record_child_def Let_def)

lemma record_child_length_step:
  "record_child prune sr p ab cs ns k = Inr st \<Longrightarrow>
     length (best_moves (case st of Return sr' \<Rightarrow> sr' | Continue sr' ab' \<Rightarrow> sr')) = length (best_moves sr)"
  by (auto simp: record_child_def Let_def split: if_splits step.splits)

lemma search_children_succeeds:
  assumes IH: "\<And>sr k ab ns. k \<in> set kids \<Longrightarrow> dl < length (best_moves sr) \<Longrightarrow> 
                 \<exists>sr'. search_under_gen prune f sr k ab ns dl = Inr sr'"
    and "depth p < dl" "dl < length (best_moves sr)"
  shows "\<exists>res. search_children prune f sr p ab cs ns dl kids = Inr res"
  using assms
proof (induction kids arbitrary: sr ab ns)
  case Nil
  then show ?case by simp
next
  case (Cons child rest)
  obtain sr1 where 1: "search_under_gen prune f sr child ab (tap child ns) dl = Inr sr1"
    using Cons.prems(1)[of child sr] Cons.prems(3) by auto
  have l1: "length (best_moves sr1) = length (best_moves sr)"
    by (rule search_under_gen_length[OF 1])
  obtain st where 2: "record_child prune sr1 p ab cs (untap child (tap child ns)) child = Inr st"
    using record_child_succeeds[of p sr1] Cons.prems(2,3) l1 by fastforce
  show ?case
  proof (cases st)
    case (Return sr2)
    with 1 2 show ?thesis by (simp add: Let_def)
  next
    case (Continue sr2 ab2)
    have "dl < length (best_moves sr2)"
      using record_child_length_step[OF 2] Continue l1 Cons.prems(3) by simp
    then obtain res where "search_children prune f sr2 p ab2 cs (untap child (tap child ns)) dl rest = Inr res"
      using Cons.IH[of sr2 ab2 "untap child (tap child ns)"] Cons.prems(1,2) by auto
    with 1 2 Continue show ?thesis by (simp add: Let_def)
  qed
qed

lemma search_under_gen_succeeds:
  assumes "depth p \<le> dl" "dl < length (best_moves sr)" "dl - depth p < fuel"
    and "depth p = 0 \<longrightarrow> ordered_moves sr cs = None"
  shows "\<exists>sr'. search_under_gen prune fuel sr p ab cs dl = Inr sr'"
  using assms
proof (induction fuel arbitrary: sr p ab cs)
  case 0
  then show ?case by simp
next
  case (Suc fuel)
  have g: "get_children sr p cs = (expand p cs, sr)"
    using Suc.prems(4) by (simp add: get_children_expand)
  show ?case
  proof (cases "dl \<le> depth p")
    case True
    then show ?thesis using Suc.prems by simp
  next
    case False
    show ?thesis
    proof (cases "expand p cs = []")
      case True
      then show ?thesis using False Suc.prems g by (simp add: Let_def)
    next
      case ne: False
      have "\<exists>res. search_children prune fuel (reset_best sr p) p ab cs (togglePlayer cs) dl (expand p cs) = Inr res"
      proof (rule search_children_succeeds)
        fix sr1 :: Searcher and k ab1 ns1
        assume "k \<in> set (expand p cs)" "dl < length (best_moves sr1)"
        then show "\<exists>sr'. search_under_gen prune fuel sr1 k ab1 ns1 dl = Inr sr'"
          using Suc.IH[of k sr1 ns1 ab1] False Suc.prems(3) by (auto dest!: expand_depth)
      qed (use False Suc.prems in auto)
      then obtain a b where "search_children prune fuel (reset_best sr p) p ab cs (togglePlayer cs) dl (expand p cs) = Inr (a, b)"
        by auto
      then show ?thesis using False ne Suc.prems g by (simp add: Let_def)
    qed
  qed
qed

lemma move_order_simps [simp]:
  "root (move_order t sr) = root sr"
  "best_moves (move_order t sr) = best_moves sr"
  "ordered_moves (move_order t sr) key = map_option (sort_moves t) (ordered_moves sr key)"
  by (simp_all add: move_order_def)

lemma move_order_empty:
  "ordered_moves sr = Map.empty \<Longrightarrow> ordered_moves (move_order t sr) = Map.empty"
  by (simp add: move_order_def fun_eq_iff)

lemma search_gen_Inr:
  assumes "search_gen prune fuel sr position dl = Inr (best, engine)"
  obtains e0 rest where
    "search_under_gen prune fuel (sr\<lparr>best_moves := replicate (dl + 1) Node_default\<rparr>) (root sr)
       full_window position dl = Inr e0"
    "best_moves e0 = best # rest" "engine = move_order (team (root sr)) e0"
proof -
  let ?s = "sr\<lparr>best_moves := replicate (dl + 1) Node_default\<rparr>"
  from assms obtain e0 where run: "search_under_gen prune fuel ?s (root sr) full_window position dl = Inr e0"
    by (auto simp: search_gen_def Let_def full_window_def split: sum.splits)
  have r: "root e0 = root sr" using root_unchanged[OF run] by simp
  from assms run obtain rest where "best_moves e0 = best # rest" "engine = move_order (team (root e0)) e0"
    by (auto simp: search_gen_def Let_def full_window_def split: list.splits)
  with run r that show thesis by simp
qed

lemma search_gen_of_run:
  assumes "search_under_gen prune fuel (sr\<lparr>best_moves := replicate (dl + 1) Node_default\<rparr>) (root sr)
       full_window position dl = Inr e0"
  shows "\<exists>best rest. best_moves e0 = best # rest \<and>
           search_gen prune fuel sr position dl = Inr (best, move_order (team (root sr)) e0)"
proof -
  have "length (best_moves e0) = dl + 1"
    using search_under_gen_length[OF assms] by simp
  then obtain best rest where f: "best_moves e0 = best # rest"
    by (cases "best_moves e0") auto
  have r: "root e0 = root sr" using root_unchanged[OF assms] by simp
  have "search_gen prune fuel sr position dl = Inr (best, move_order (team (root sr)) e0)"
    using assms f r by (simp add: search_gen_def Let_def full_window_def)
  with f show ?thesis by blast
qed


lemma search_consumes_entry:
  assumes "search_gen prune fuel sr position dl = Inr (best, engine)"
    and "depth (root sr) = 0" "0 < dl" "ordered_moves sr position = Some ordered"
    and "\<forall>k \<in> set ordered. 2 < depth k"
  shows "ordered_moves engine = Map.empty" "root engine = root sr"
proof -
  let ?s = "sr\<lparr>best_moves := replicate (dl + 1) Node_default\<rparr>"
  from assms(1) obtain e0 rest where
      run: "search_under_gen prune fuel ?s (root sr) full_window position dl = Inr e0"
      and eng: "engine = move_order (team (root sr)) e0"
    by (rule search_gen_Inr)
  have "ordered_moves e0 = Map.empty"
    by (rule consumed_cache_empty[OF _ _ assms(5) run assms(3)]) (use assms(2,4) in auto)
  then show "ordered_moves engine = Map.empty"
    unfolding eng by (rule move_order_empty)
  show "root engine = root sr"
    using root_unchanged[OF run] by (simp add: eng)
qed





lemma sort_moves_set [simp]: "set (sort_moves t l) = set l"
  by (simp add: sort_moves_def)






subsection \<open>The evaluators only mark, and \<open>clear_marks\<close> clears every mark\<close>

lemma marks_only_refl: "marks_only s s"
  by (simp add: marks_only_def)

lemma marks_only_trans: "marks_only a b \<Longrightarrow> marks_only b c \<Longrightarrow> marks_only a c"
  unfolding marks_only_def by (auto; metis)

lemma marks_only_mark1: "marks_only s (mark r c s)"
  by (auto simp: marks_only_def mark_def getCell_def setCell_nth)

lemma marks_only_mark: "marks_only s0 s \<Longrightarrow> marks_only s0 (mark r c s)"
  using marks_only_mark1 marks_only_trans by blast

lemma marks_only_count_and_mark:
  "marks_only s0 (snd acc) \<Longrightarrow> marks_only s0 (snd (count_and_mark found ra ca rb cb acc))"
  by (simp add: count_and_mark_def marks_only_mark)

lemma marks_only_fold2:
  assumes "\<And>x y acc. marks_only s0 (snd acc) \<Longrightarrow> marks_only s0 (snd (f x y acc))"
    and "marks_only s0 (snd acc)"
  shows "marks_only s0 (snd (fold (\<lambda>x acc. fold (\<lambda>y acc. f x y acc) ys acc) xs acc))"
  by (rule fold_invariant[where Q = "\<lambda>_. True" and P = "\<lambda>acc. marks_only s0 (snd acc)"])
     (auto intro!: assms fold_invariant[where Q = "\<lambda>_. True" and P = "\<lambda>acc. marks_only s0 (snd acc)"])

lemma marks_only_evaluators:
  "marks_only s (snd (EvalHomeReserved s))"
  "marks_only s (snd (EvalHomeOpen s))"
  "marks_only s (snd (EvalAwayReserved s))"
  "marks_only s (snd (EvalAwayOpen s))"
  unfolding EvalHomeReserved_def EvalHomeOpen_def EvalAwayReserved_def EvalAwayOpen_def
  by (rule marks_only_fold2; simp add: marks_only_count_and_mark marks_only_refl)+

lemma same_shape_dims:
  "same_shape s s' \<Longrightarrow> ROWS s' = ROWS s"
  "same_shape s s' \<Longrightarrow> COLS s' = COLS s"
  "same_shape s s' \<Longrightarrow> who s' = who s"
  "same_shape s s' \<Longrightarrow> length (board s') = length (board s)"
  by (auto simp: same_shape_def dest: list_all2_lengthD)

lemma same_shape_rows:
  "same_shape s s' \<Longrightarrow> i < length (board s) \<Longrightarrow> length (board s' ! i) = length (board s ! i)"
  by (simp add: same_shape_def list_all2_conv_all_nth)

lemma same_shape_refl: "same_shape s s"
  by (simp add: same_shape_def list_all2_conv_all_nth)

lemma same_shape_setCell: "same_shape s (setCell s r c v)"
  by (simp add: same_shape_def list_all2_conv_all_nth)

lemma same_shape_trans: "same_shape a b \<Longrightarrow> same_shape b c \<Longrightarrow> same_shape a c"
  by (auto simp: same_shape_def list_all2_conv_all_nth)

lemma clear_cell_idem: "clear_cell (clear_cell x) = clear_cell x"
  by (simp add: clear_cell_def MARKEDSYM_def EMPTYSYM_def)

lemma unmark_shape: "same_shape st (unmark i j st)"
  by (simp add: unmark_def same_shape_refl same_shape_setCell)

lemma unmark_cell:
  "a < length (board st) \<Longrightarrow> b < length (board st ! a) \<Longrightarrow>
     board (unmark i j st) ! a ! b =
       (if a = i \<and> b = j then clear_cell (board st ! a ! b) else board st ! a ! b)"
  by (auto simp: unmark_def setCell_nth getCell_def clear_cell_def)

lemma clears_empty: "clears {} st st"
  by (simp add: clears_def same_shape_refl)

lemma clears_unmark: "clears {(i, j)} st (unmark i j st)"
  by (simp add: clears_def unmark_shape unmark_cell)

lemma clears_trans:
  assumes "clears A s1 s2" "clears B s2 s3"
  shows "clears (A \<union> B) s1 s3"
  unfolding clears_def
proof (intro conjI allI impI)
  show "same_shape s1 s3"
    using assms same_shape_trans by (auto simp: clears_def)
next
  fix a b assume ab: "a < length (board s1)" "b < length (board s1 ! a)"
  have sh: "same_shape s1 s2" using assms(1) by (simp add: clears_def)
  have ab2: "a < length (board s2)" "b < length (board s2 ! a)"
    using ab same_shape_dims(4)[OF sh] same_shape_rows[OF sh ab(1)] by simp_all
  have 1: "board s2 ! a ! b = (if (a, b) \<in> A then clear_cell (board s1 ! a ! b) else board s1 ! a ! b)"
    using assms(1) ab by (simp add: clears_def)
  have 2: "board s3 ! a ! b = (if (a, b) \<in> B then clear_cell (board s2 ! a ! b) else board s2 ! a ! b)"
    using assms(2) ab2 by (simp add: clears_def)
  show "board s3 ! a ! b =
      (if (a, b) \<in> A \<union> B then clear_cell (board s1 ! a ! b) else board s1 ! a ! b)"
    by (simp add: 1 2 clear_cell_idem)
qed

lemma clears_row:
  "clears ({i} \<times> set cols) st (fold (\<lambda>j st. unmark i j st) cols st)"
proof (induction cols arbitrary: st)
  case Nil
  then show ?case by (simp add: clears_empty)
next
  case (Cons j cols)
  have "clears ({(i, j)} \<union> {i} \<times> set cols) st (fold (\<lambda>j st. unmark i j st) cols (unmark i j st))"
    by (rule clears_trans[OF clears_unmark Cons.IH])
  moreover have "{(i, j)} \<union> {i} \<times> set cols = {i} \<times> set (j # cols)" by auto
  ultimately show ?case by simp
qed

lemma clears_rows:
  "clears (set rows \<times> set cols) st
     (fold (\<lambda>i st. fold (\<lambda>j st. unmark i j st) cols st) rows st)"
proof (induction rows arbitrary: st)
  case Nil
  then show ?case by (simp add: clears_empty)
next
  case (Cons i rows)
  have "clears ({i} \<times> set cols \<union> set rows \<times> set cols) st
      (fold (\<lambda>i st. fold (\<lambda>j st. unmark i j st) cols st) rows
         (fold (\<lambda>j st. unmark i j st) cols st))"
    by (rule clears_trans[OF clears_row Cons.IH])
  moreover have "{i} \<times> set cols \<union> set rows \<times> set cols = set (i # rows) \<times> set cols" by auto
  ultimately show ?case by simp
qed

lemma clears_clear_marks:
  "clears ({0 ..< ROWS s} \<times> {0 ..< COLS s}) s (clear_marks s)"
  using clears_rows[of "[0 ..< ROWS s]" "[0 ..< COLS s]" s] by (simp add: clear_marks_def)




lemma evaluate_loop_unrolled:
  "evaluate_loop position =
     (let hr = EvalHomeReserved position;
          ho = EvalHomeOpen (snd hr);
          c1 = clear_marks (snd ho);
          ar = EvalAwayReserved c1;
          ao = EvalAwayOpen (snd ar)
      in (2 * fst hr + fst ho - 2 * fst ar - fst ao, clear_marks (snd ao)))"
  by (simp add: evaluate_loop_def evaluators_def ClearMarks_def Let_def)

subsection \<open>Alpha-beta search and the minimax value\<close>

lemma fold_max_ge: "x \<le> fold max vs (x::int)"
proof (induction vs arbitrary: x)
  case Nil
  then show ?case by simp
next
  case (Cons v vs)
  have "x \<le> max v x" by simp
  also have "\<dots> \<le> fold max vs (max v x)" by (rule Cons.IH)
  finally show ?case by simp
qed

lemma fold_min_le: "fold min vs (x::int) \<le> x"
proof (induction vs arbitrary: x)
  case Nil
  then show ?case by simp
next
  case (Cons v vs)
  have "fold min vs (min v x) \<le> min v x" by (rule Cons.IH)
  also have "\<dots> \<le> x" by simp
  finally show ?case by simp
qed

lemma fold_pick_eq:
  "fold (pick t) vs x = (if t = HOME then fold max vs x else fold min vs x)"
proof -
  have "pick t = (if t = HOME then max else min)" by (auto simp: pick_def fun_eq_iff)
  then show ?thesis by simp
qed

lemma loop_inv_init:
  assumes "prune \<longrightarrow> window_ok ab"
  shows "loop_inv prune t ab (if t = HOME then NEG_INF else POS_INF) ab
           (if t = HOME then NEG_INF else POS_INF)"
  using assms by (auto simp: loop_inv_def window_ok_def)

lemma loop_inv_window: "loop_inv prune t ab0 m ab M \<Longrightarrow> prune \<longrightarrow> window_ok ab"
  by (auto simp: loop_inv_def)

lemma loop_inv_better:
  assumes "loop_inv prune t ab0 m ab M" "approx prune ab v r" "better t r m"
    and "\<not> (prune \<and> can_prune (update_if_needed ab r t) r t)"
  shows "loop_inv prune t ab0 r (update_if_needed ab r t) (pick t v M)"
  using assms
  by (cases prune; cases "t = HOME")
     (auto simp: loop_inv_def approx_def fail_soft_def better_def can_prune_def
        update_if_needed_def pick_def window_ok_def)

lemma loop_inv_keep:
  assumes "loop_inv prune t ab0 m ab M" "approx prune ab v r" "\<not> better t r m"
  shows "loop_inv prune t ab0 m ab (pick t v M)"
  using assms
  by (cases prune; cases "t = HOME")
     (auto simp: loop_inv_def approx_def fail_soft_def better_def pick_def window_ok_def)

lemma loop_inv_cut:
  assumes "loop_inv prune t ab0 m ab M" "approx prune ab v r" "better t r m"
    and "prune" "can_prune (update_if_needed ab r t) r t"
  shows "approx prune ab0 (fold (pick t) vs (pick t v M)) r"
proof (cases "t = HOME")
  case True
  have "max v M \<le> fold max vs (max v M)" by (rule fold_max_ge)
  then show ?thesis using assms True
    by (auto simp: loop_inv_def approx_def fail_soft_def better_def can_prune_def
        update_if_needed_def pick_def window_ok_def fold_pick_eq split: if_splits)
next
  case False
  have "fold min vs (min v M) \<le> min v M" by (rule fold_min_le)
  then show ?thesis using assms False
    by (auto simp: loop_inv_def approx_def fail_soft_def better_def can_prune_def
        update_if_needed_def pick_def window_ok_def fold_pick_eq split: if_splits)
qed

lemma loop_inv_end:
  assumes "loop_inv prune t ab0 m ab M"
  shows "approx prune ab0 M m"
  using assms
  by (cases prune; cases "t = HOME")
     (auto simp: loop_inv_def approx_def fail_soft_def window_ok_def)

lemma approx_refl: "approx prune ab v v"
  by (simp add: approx_def fail_soft_def)

lemma prefix_frame:
  assumes "search_under_gen prune fuel sr k ab cs dl = Inr sr'" and "i < depth k"
  shows "best_moves sr' ! i = best_moves sr ! i"
proof (rule search_under_gen_invariant[where R = "\<lambda>a b. best_moves b ! i = best_moves a ! i"
        and V = "\<lambda>q. i < depth q", OF _ _ _ _ _ _ _ assms])
  fix sr :: Searcher and p :: Node and cs
  assume "i < depth p" "depth p < dl"
  then show "best_moves (snd (get_children sr p cs)) ! i = best_moves sr ! i \<and>
       (\<forall>k\<in>set (fst (get_children sr p cs)). i < depth k)"
    by (auto simp: get_children_def dest: expand_depth split: option.splits)
next
  fix sr :: Searcher and p :: Node and ab cs ns k st
  assume "i < depth p" "depth p < dl" "record_child prune sr p ab cs ns k = Inr st"
  then show "best_moves (case st of Return sr' \<Rightarrow> sr' | Continue sr' ab' \<Rightarrow> sr') ! i = best_moves sr ! i"
    by (auto simp: record_child_def Let_def split: if_splits step.splits)
qed (auto simp: reset_best_def)

lemma all_live_nth: "all_live sr \<Longrightarrow> i < length (best_moves sr) \<Longrightarrow> \<not> is_terminal (best_moves sr ! i)"
  by (simp add: all_live_def list_all_length)

lemma all_live_update:
  "all_live sr \<Longrightarrow> \<not> is_terminal n \<Longrightarrow> best_moves sr' = (best_moves sr)[i := n] \<Longrightarrow> all_live sr'"
  by (cases "i < length (best_moves sr)")
     (auto simp: all_live_def list_all_length nth_list_update)

lemma record_child_outcome:
  assumes "depth p + 1 < length (best_moves sr)"
    and "\<not> is_terminal (best_moves sr ! (depth p + 1))"
    and "\<not> is_unset (best_moves sr ! depth p)"
  shows "\<exists>sr2. best_moves sr2 =
             (if better (team p) (score (best_moves sr ! (depth p + 1))) (score (best_moves sr ! depth p))
              then (best_moves sr)[depth p := set_score k (score (best_moves sr ! (depth p + 1)))]
              else best_moves sr) \<and>
           record_child prune sr p ab cs ns k =
             Inr (if better (team p) (score (best_moves sr ! (depth p + 1))) (score (best_moves sr ! depth p))
                  then (if prune \<and> can_prune (update_if_needed ab (score (best_moves sr ! (depth p + 1))) (team p))
                                      (score (best_moves sr ! (depth p + 1))) (team p)
                        then Return sr2
                        else Continue sr2 (update_if_needed ab (score (best_moves sr ! (depth p + 1))) (team p)))
                  else Continue sr2 ab)"
proof (cases "depth p = 2")
  case True
  then show ?thesis
    using assms by (auto simp: record_child_def Let_def better_def)
next
  case False
  then show ?thesis
    using assms by (auto simp: record_child_def Let_def better_def)
qed

lemma search_children_minimax:
  fixes val :: "Node \<Rightarrow> int"
  assumes kids: "\<And>k sr ab. k \<in> set rest \<Longrightarrow> dl < length (best_moves sr) \<Longrightarrow>
             all_live sr \<Longrightarrow> (prune \<longrightarrow> window_ok ab) \<Longrightarrow>
             \<exists>sr1. search_under_gen prune fuel sr k ab (tap k ns) dl = Inr sr1 \<and>
                   approx prune ab (val k) (score (best_moves sr1 ! (depth p + 1))) \<and>
                   all_live sr1"
    and legal: "\<forall>k\<in>set rest. moveOK ns (parent_move k) \<and> depth k = depth p + 1 \<and> \<not> is_terminal k"
    and ready: "depth p < dl \<and> dl < length (best_moves sr)" "all_live sr"
               "\<not> is_unset (best_moves sr ! depth p)"
    and inv: "loop_inv prune (team p) ab0 (score (best_moves sr ! depth p)) ab M"
  shows "\<exists>sr'. search_children prune fuel sr p ab cs ns dl rest = Inr (sr', ns) \<and>
           approx prune ab0 (fold (pick (team p)) (map val rest) M)
             (score (best_moves sr' ! depth p)) \<and>
           all_live sr'"
  using assms
proof (induction rest arbitrary: sr ab M)
  case Nil
  from Nil.prems(4,6) show ?case by (simp add: loop_inv_end)
next
  case (Cons k rest)
  let ?d = "depth p"
  let ?t = "team p"
  let ?m = "score (best_moves sr ! ?d)"
  have kfacts: "moveOK ns (parent_move k)" "depth k = ?d + 1" "\<not> is_terminal k"
    using Cons.prems(2) by simp_all
  have w: "prune \<longrightarrow> window_ok ab"
    using loop_inv_window[OF Cons.prems(6)] .
  obtain sr1 where run: "search_under_gen prune fuel sr k ab (tap k ns) dl = Inr sr1"
      and ap: "approx prune ab (val k) (score (best_moves sr1 ! (?d + 1)))"
      and live1: "all_live sr1"
    using Cons.prems(1)[of k sr ab] Cons.prems(3,4) w by auto
  define r where "r = score (best_moves sr1 ! (?d + 1))"
  note ap = ap[folded r_def]
  have len1: "length (best_moves sr1) = length (best_moves sr)"
    by (rule search_under_gen_length[OF run])
  have same: "best_moves sr1 ! ?d = best_moves sr ! ?d"
    by (rule prefix_frame[OF run]) (simp add: kfacts)
  have rt: "untap k (tap k ns) = ns"
    by (rule untap_tap[OF kfacts(1)])
  have r1: "?d + 1 < length (best_moves sr1)" using Cons.prems(3) len1 by simp
  have nt: "\<not> is_terminal (best_moves sr1 ! (?d + 1))"
    by (rule all_live_nth[OF live1 r1])
  have nu: "\<not> is_unset (best_moves sr1 ! ?d)" using Cons.prems(5) same by simp
  obtain sr2 where bm2: "best_moves sr2 =
             (if better ?t r (score (best_moves sr1 ! ?d))
              then (best_moves sr1)[?d := set_score k r] else best_moves sr1)"
    and rc: "record_child prune sr1 p ab cs ns k =
             Inr (if better ?t r (score (best_moves sr1 ! ?d))
                  then (if prune \<and> can_prune (update_if_needed ab r ?t) r ?t
                        then Return sr2
                        else Continue sr2 (update_if_needed ab r ?t))
                  else Continue sr2 ab)"
    using record_child_outcome[OF r1 nt nu, of k prune ab cs ns] unfolding r_def by blast
  have m1: "score (best_moves sr1 ! ?d) = ?m" using same by simp
  have len2: "length (best_moves sr2) = length (best_moves sr)"
    using bm2 len1 by (simp split: if_splits)
  have live2: "all_live sr2"
  proof (cases "better ?t r ?m")
    case True
    have "\<not> is_terminal (set_score k r)" using kfacts(3) by (simp add: set_score_def)
    then show ?thesis
      using all_live_update[OF live1 _ , of "set_score k r" sr2 ?d] bm2 True m1 by simp
  next
    case False
    then show ?thesis using live1 bm2 m1 by (simp add: all_live_def)
  qed
  have rest_kids: "\<And>k sr ab. k \<in> set rest \<Longrightarrow> dl < length (best_moves sr) \<Longrightarrow>
             all_live sr \<Longrightarrow> (prune \<longrightarrow> window_ok ab) \<Longrightarrow>
             \<exists>sr1. search_under_gen prune fuel sr k ab (tap k ns) dl = Inr sr1 \<and>
                   approx prune ab (val k) (score (best_moves sr1 ! (?d + 1))) \<and>
                   all_live sr1"
    using Cons.prems(1) by simp
  have rest_legal: "\<forall>k\<in>set rest. moveOK ns (parent_move k) \<and> depth k = ?d + 1 \<and> \<not> is_terminal k"
    using Cons.prems(2) by simp
  have fold_step: "fold (pick ?t) (map val (k # rest)) M = fold (pick ?t) (map val rest) (pick ?t (val k) M)"
    by simp
  show ?case
  proof (cases "better ?t r ?m")
    case b: True
    have sc2: "score (best_moves sr2 ! ?d) = r"
      using bm2 b m1 r1 by (simp add: set_score_def)
    have un2: "\<not> is_unset (best_moves sr2 ! ?d)"
      using bm2 b m1 r1 by (simp add: set_score_def)
    show ?thesis
    proof (cases "prune \<and> can_prune (update_if_needed ab r ?t) r ?t")
      case True
      have "search_children prune fuel sr p ab cs ns dl (k # rest) = Inr (sr2, ns)"
        using run rc rt b m1 True by (simp add: Let_def)
      moreover have "approx prune ab0 (fold (pick ?t) (map val (k # rest)) M) (score (best_moves sr2 ! ?d))"
        unfolding fold_step sc2
        using loop_inv_cut[OF Cons.prems(6) ap b] True by simp
      ultimately show ?thesis using live2 by blast
    next
      case False
      have step: "search_children prune fuel sr p ab cs ns dl (k # rest) =
          search_children prune fuel sr2 p (update_if_needed ab r ?t) cs ns dl rest"
        using run rc rt b m1 False by (simp add: Let_def)
      have inv2: "loop_inv prune ?t ab0 (score (best_moves sr2 ! ?d)) (update_if_needed ab r ?t)
                    (pick ?t (val k) M)"
        unfolding sc2 by (rule loop_inv_better[OF Cons.prems(6) ap b False])
      have "\<exists>sr'. search_children prune fuel sr2 p (update_if_needed ab r ?t) cs ns dl rest = Inr (sr', ns) \<and>
           approx prune ab0 (fold (pick ?t) (map val rest) (pick ?t (val k) M))
             (score (best_moves sr' ! ?d)) \<and> all_live sr'"
        by (rule Cons.IH[OF rest_kids rest_legal _ live2 un2 inv2])
           (use Cons.prems(3) len2 in simp_all)
      then show ?thesis unfolding step fold_step .
    qed
  next
    case nb: False
    have bm: "best_moves sr2 = best_moves sr1" using bm2 nb m1 by simp
    have step: "search_children prune fuel sr p ab cs ns dl (k # rest) =
          search_children prune fuel sr2 p ab cs ns dl rest"
      using run rc rt nb m1 by (simp add: Let_def)
    have inv2: "loop_inv prune ?t ab0 (score (best_moves sr2 ! ?d)) ab (pick ?t (val k) M)"
      unfolding bm m1 by (rule loop_inv_keep[OF Cons.prems(6) ap nb])
    have un2: "\<not> is_unset (best_moves sr2 ! ?d)" using nu bm by simp
    have "\<exists>sr'. search_children prune fuel sr2 p ab cs ns dl rest = Inr (sr', ns) \<and>
           approx prune ab0 (fold (pick ?t) (map val rest) (pick ?t (val k) M))
             (score (best_moves sr' ! ?d)) \<and> all_live sr'"
      by (rule Cons.IH[OF rest_kids rest_legal _ live2 un2 inv2])
         (use Cons.prems(3) len2 in simp_all)
    then show ?thesis unfolding step fold_step .
  qed
qed

lemma expand_live: "child \<in> set (expand parent s) \<Longrightarrow> \<not> is_terminal child"
  by (auto simp: expand_eq child_of_def Node_new_def)

lemma search_under_gen_minimax:
  assumes "playable n p cs" "depth p + n = dl" "n < fuel" "dl < length (best_moves sr)"
    and "all_live sr" "n = 0 \<longrightarrow> \<not> is_terminal p" "depth p = 0 \<longrightarrow> ordered_moves sr cs = None"
    and "prune \<longrightarrow> window_ok ab"
  shows "\<exists>sr'. search_under_gen prune fuel sr p ab cs dl = Inr sr' \<and>
           approx prune ab (minimax n p cs) (score (best_moves sr' ! depth p)) \<and> all_live sr'"
  using assms
proof (induction n arbitrary: p cs sr ab fuel)
  case 0
  obtain f where f: "fuel = Suc f" using "0.prems"(3) by (cases fuel) auto
  let ?sr' = "sr\<lparr>best_moves := (best_moves sr)[depth p := set_score p (evaluate cs)]\<rparr>"
  have run: "search_under_gen prune fuel sr p ab cs dl = Inr ?sr'"
    using "0.prems"(2,4) by (simp add: f)
  have "\<not> is_terminal (set_score p (evaluate cs))" using "0.prems"(6) by (simp add: set_score_def)
  then have live: "all_live ?sr'"
    using all_live_update[OF "0.prems"(5), of "set_score p (evaluate cs)" ?sr' "depth p"] by simp
  have "score (best_moves ?sr' ! depth p) = minimax 0 p cs"
    using "0.prems"(2,4) by (simp add: set_score_def)
  then show ?case using run live approx_refl by metis
next
  case (Suc n)
  obtain f where f: "fuel = Suc f" and nf: "n < f" using Suc.prems(3) by (cases fuel) auto
  let ?d = "depth p"
  let ?ns = "togglePlayer cs"
  let ?kids = "expand p cs"
  let ?init = "if team p = HOME then NEG_INF else POS_INF"
  let ?val = "\<lambda>k. minimax n k (tap k ?ns)"
  have d: "?d < dl" using Suc.prems(2) by simp
  have g: "get_children sr p cs = (?kids, sr)"
    using Suc.prems(7) by (simp add: get_children_expand)
  have ne: "?kids \<noteq> []" and pl: "\<forall>k\<in>set ?kids. playable n k (tap k ?ns)"
    using Suc.prems(1) by (simp_all add: list_all_iff)
  define sr0 where "sr0 = reset_best sr p"
  have bm0: "best_moves sr0 = (best_moves sr)[?d := set_score (best_moves sr ! ?d) ?init]"
    by (simp add: sr0_def reset_best_def)
  have dlen: "?d < length (best_moves sr)" using d Suc.prems(4) by simp
  have live0: "all_live sr0"
  proof -
    have "\<not> is_terminal (set_score (best_moves sr ! ?d) ?init)"
      using all_live_nth[OF Suc.prems(5) dlen] by (simp add: set_score_def)
    then show ?thesis using all_live_update[OF Suc.prems(5) _ bm0] by simp
  qed
  have sc0: "score (best_moves sr0 ! ?d) = ?init" and un0: "\<not> is_unset (best_moves sr0 ! ?d)"
    using bm0 dlen by (simp_all add: set_score_def)
  have len0: "dl < length (best_moves sr0)" using bm0 Suc.prems(4) by simp
  have inv0: "loop_inv prune (team p) ab (score (best_moves sr0 ! ?d)) ab ?init"
    unfolding sc0 by (rule loop_inv_init[OF Suc.prems(8)])
  have kids: "\<exists>sr1. search_under_gen prune f sr1' k ab1 (tap k ?ns) dl = Inr sr1 \<and>
                   approx prune ab1 (?val k) (score (best_moves sr1 ! (?d + 1))) \<and> all_live sr1"
    if "k \<in> set ?kids" "dl < length (best_moves sr1')" "all_live sr1'" "prune \<longrightarrow> window_ok ab1"
    for k sr1' ab1
  proof -
    have dk: "depth k = ?d + 1" using expand_depth[OF that(1)] .
    have "\<exists>sr1. search_under_gen prune f sr1' k ab1 (tap k ?ns) dl = Inr sr1 \<and>
           approx prune ab1 (minimax n k (tap k ?ns)) (score (best_moves sr1 ! depth k)) \<and> all_live sr1"
      by (rule Suc.IH[OF _ _ nf that(2,3) _ _ that(4)])
         (use pl that(1) dk Suc.prems(2) expand_live[OF that(1)] in auto)
    then show ?thesis by (simp add: dk)
  qed
  have legal: "\<forall>k\<in>set ?kids. moveOK ?ns (parent_move k) \<and> depth k = ?d + 1 \<and> \<not> is_terminal k"
    using expand_moveOK expand_depth expand_live by (metis moveOK_togglePlayer)
  obtain sr' where loop: "search_children prune f sr0 p ab cs ?ns dl ?kids = Inr (sr', ?ns)"
    and ap: "approx prune ab (fold (pick (team p)) (map ?val ?kids) ?init) (score (best_moves sr' ! ?d))"
    and live: "all_live sr'"
    using search_children_minimax[where val = ?val and rest = ?kids and p = p and sr = sr0 and ab = ab
        and ab0 = ab and M = ?init and ns = ?ns and prune = prune and fuel = f and dl = dl and cs = cs,
        OF kids legal _ live0 un0 inv0] d len0
    by blast
  have run: "search_under_gen prune fuel sr p ab cs dl = Inr sr'"
    using d dlen g ne loop by (simp add: f Let_def sr0_def)
  have "fold (pick (team p)) (map ?val ?kids) ?init = minimax (Suc n) p cs"
    by (simp add: fold_pick_eq Let_def)
  with ap run live show ?case by auto
qed

lemma count_and_mark_fst:
  "fst acc \<le> fst (count_and_mark found ra ca rb cb acc) \<and>
   fst (count_and_mark found ra ca rb cb acc) \<le> fst acc + 1"
  by (simp add: count_and_mark_def)

lemma count_fold:
  fixes f :: "'a \<Rightarrow> int \<times> 's \<Rightarrow> int \<times> 's"
  assumes "\<And>y acc. fst acc \<le> fst (f y acc) \<and> fst (f y acc) \<le> fst acc + k"
  shows "fst acc \<le> fst (fold f ys acc) \<and> fst (fold f ys acc) \<le> fst acc + k * int (length ys)"
proof (induction ys arbitrary: acc)
  case Nil
  then show ?case by simp
next
  case (Cons y ys)
  have 1: "fst acc \<le> fst (f y acc)" "fst (f y acc) \<le> fst acc + k" using assms by simp_all
  have 2: "fst (f y acc) \<le> fst (fold f ys (f y acc))"
    "fst (fold f ys (f y acc)) \<le> fst (f y acc) + k * int (length ys)"
    using Cons.IH[of "f y acc"] by simp_all
  show ?case using 1 2 by (simp add: algebra_simps)
qed

lemma count_fold2:
  fixes f :: "'a \<Rightarrow> 'b \<Rightarrow> int \<times> 's \<Rightarrow> int \<times> 's"
  assumes "\<And>x y acc. fst acc \<le> fst (f x y acc) \<and> fst (f x y acc) \<le> fst acc + 1"
  shows "fst acc \<le> fst (fold (\<lambda>x acc. fold (\<lambda>y acc. f x y acc) ys acc) xs acc) \<and>
         fst (fold (\<lambda>x acc. fold (\<lambda>y acc. f x y acc) ys acc) xs acc)
           \<le> fst acc + int (length ys) * int (length xs)"
proof (rule count_fold)
  fix x :: 'a and acc :: "int \<times> 's"
  show "fst acc \<le> fst (fold (\<lambda>y acc. f x y acc) ys acc) \<and>
        fst (fold (\<lambda>y acc. f x y acc) ys acc) \<le> fst acc + int (length ys)"
    using count_fold[where f = "\<lambda>y acc. f x y acc" and k = 1 and ys = ys and acc = acc] assms
    by simp
qed

lemma evaluator_counts:
  "0 \<le> fst (EvalHomeReserved s) \<and> fst (EvalHomeReserved s) \<le> int (ROWS s * COLS s)"
  "0 \<le> fst (EvalHomeOpen s) \<and> fst (EvalHomeOpen s) \<le> int (ROWS s * COLS s)"
  "0 \<le> fst (EvalAwayReserved s) \<and> fst (EvalAwayReserved s) \<le> int (ROWS s * COLS s)"
  "0 \<le> fst (EvalAwayOpen s) \<and> fst (EvalAwayOpen s) \<le> int (ROWS s * COLS s)"
  unfolding EvalHomeReserved_def EvalHomeOpen_def EvalAwayReserved_def EvalAwayOpen_def
  using count_fold2[where ys = "[0 ..< COLS s]" and xs = "[0 ..< ROWS s]" and acc = "(0, s)",
      OF count_and_mark_fst]
    count_fold2[where ys = "[0 ..< ROWS s]" and xs = "[0 ..< COLS s]" and acc = "(0, s)",
      OF count_and_mark_fst]
  by (simp_all add: mult.commute)

lemma marks_only_dims:
  "marks_only s s' \<Longrightarrow> ROWS s' = ROWS s \<and> COLS s' = COLS s"
  by (simp add: marks_only_def)

lemma clear_marks_dims: "ROWS (clear_marks s) = ROWS s \<and> COLS (clear_marks s) = COLS s"
  using clears_clear_marks[of s] by (simp add: clears_def same_shape_dims)

lemma evaluate_bound:
  "\<bar>evaluate s\<bar> \<le> 3 * int (ROWS s * COLS s)"
proof -
  let ?hr = "EvalHomeReserved s"
  let ?ho = "EvalHomeOpen (snd ?hr)"
  let ?c = "clear_marks (snd ?ho)"
  let ?ar = "EvalAwayReserved ?c"
  let ?ao = "EvalAwayOpen (snd ?ar)"
  let ?n = "int (ROWS s * COLS s)"
  have d1: "ROWS (snd ?hr) = ROWS s \<and> COLS (snd ?hr) = COLS s"
    using marks_only_dims[OF marks_only_evaluators(1)] .
  have d2: "ROWS (snd ?ho) = ROWS s \<and> COLS (snd ?ho) = COLS s"
    using marks_only_dims[OF marks_only_evaluators(2), of "snd ?hr"] d1 by simp
  have d3: "ROWS ?c = ROWS s \<and> COLS ?c = COLS s"
    using clear_marks_dims[of "snd ?ho"] d2 by simp
  have d4: "ROWS (snd ?ar) = ROWS s \<and> COLS (snd ?ar) = COLS s"
    using marks_only_dims[OF marks_only_evaluators(3), of ?c] d3 by simp
  have b1: "0 \<le> fst ?hr \<and> fst ?hr \<le> ?n" using evaluator_counts(1)[of s] .
  have b2: "0 \<le> fst ?ho \<and> fst ?ho \<le> ?n" using evaluator_counts(2)[of "snd ?hr"] d1 by simp
  have b3: "0 \<le> fst ?ar \<and> fst ?ar \<le> ?n" using evaluator_counts(3)[of ?c] d3 by simp
  have b4: "0 \<le> fst ?ao \<and> fst ?ao \<le> ?n" using evaluator_counts(4)[of "snd ?ar"] d4 by simp
  have "evaluate s = 2 * fst ?hr + fst ?ho - 2 * fst ?ar - fst ?ao"
    by (simp add: evaluate_def evaluate_loop_unrolled Let_def)
  then show ?thesis using b1 b2 b3 b4 by linarith
qed

lemma tap_dims [simp]: "ROWS (tap k s) = ROWS s" "COLS (tap k s) = COLS s"
  by (simp_all add: tap_def Let_def)

lemma togglePlayer_dims [simp]: "ROWS (togglePlayer s) = ROWS s" "COLS (togglePlayer s) = COLS s"
  by (simp_all add: togglePlayer_def)

lemma fold_max_bounded:
  fixes x :: int
  assumes "\<forall>v\<in>set vs. v < h" "x < h"
  shows "fold max vs x < h"
  using assms by (induction vs arbitrary: x) auto

lemma fold_min_bounded:
  fixes x :: int
  assumes "\<forall>v\<in>set vs. l < v" "l < x"
  shows "l < fold min vs x"
  using assms by (induction vs arbitrary: x) auto

lemma fold_max_lower:
  fixes x :: int
  assumes "vs \<noteq> []" "\<forall>v\<in>set vs. l < v"
  shows "l < fold max vs x"
proof -
  obtain v vs' where vs: "vs = v # vs'" using assms(1) by (cases vs) auto
  have "l < max v x" using assms(2) vs by (simp add: less_max_iff_disj)
  also have "\<dots> \<le> fold max vs' (max v x)" by (rule fold_max_ge)
  finally show ?thesis by (simp add: vs)
qed

lemma fold_min_upper:
  fixes x :: int
  assumes "vs \<noteq> []" "\<forall>v\<in>set vs. v < h"
  shows "fold min vs x < h"
proof -
  obtain v vs' where vs: "vs = v # vs'" using assms(1) by (cases vs) auto
  have "fold min vs' (min v x) \<le> min v x" by (rule fold_min_le)
  also have "\<dots> < h" using assms(2) vs by (simp add: min_less_iff_disj)
  finally show ?thesis by (simp add: vs)
qed

lemma minimax_bounded:
  assumes "playable n p cs" "3 * int (ROWS cs * COLS cs) < POS_INF"
  shows "NEG_INF < minimax n p cs \<and> minimax n p cs < POS_INF"
  using assms
proof (induction n arbitrary: p cs)
  case 0
  have "\<bar>evaluate cs\<bar> \<le> 3 * int (ROWS cs * COLS cs)" by (rule evaluate_bound)
  then show ?case using "0.prems"(2) unfolding NEG_INF_def POS_INF_def minimax.simps by linarith
next
  case (Suc n)
  let ?vs = "map (\<lambda>child. minimax n child (tap child (togglePlayer cs))) (expand p cs)"
  have ne: "?vs \<noteq> []" using Suc.prems(1) by simp
  have b: "\<forall>v\<in>set ?vs. NEG_INF < v \<and> v < POS_INF"
  proof
    fix v assume "v \<in> set ?vs"
    then obtain k where k: "k \<in> set (expand p cs)" "v = minimax n k (tap k (togglePlayer cs))"
      by auto
    have "playable n k (tap k (togglePlayer cs))"
      using Suc.prems(1) k(1) by (simp add: list_all_iff)
    then show "NEG_INF < v \<and> v < POS_INF"
      using Suc.IH[of k "tap k (togglePlayer cs)"] Suc.prems(2) k(2) by simp
  qed
  have lt: "NEG_INF < POS_INF" by (simp add: NEG_INF_def POS_INF_def)
  show ?case
  proof (cases "team p = HOME")
    case True
    have "NEG_INF < fold max ?vs NEG_INF" using fold_max_lower[OF ne] b by blast
    moreover have "fold max ?vs NEG_INF < POS_INF" using fold_max_bounded[of ?vs POS_INF NEG_INF] b lt by blast
    ultimately show ?thesis using True by (simp add: Let_def)
  next
    case False
    have "NEG_INF < fold min ?vs POS_INF" using fold_min_bounded[of ?vs NEG_INF POS_INF] b lt by blast
    moreover have "fold min ?vs POS_INF < POS_INF" using fold_min_upper[OF ne] b by blast
    ultimately show ?thesis using False by (simp add: Let_def)
  qed
qed

lemma search_gen_minimax:
  assumes "depth (root sr) = 0" "ordered_moves sr position = None"
    and "playable depth_limit (root sr) position"
    and "3 * int (ROWS position * COLS position) < POS_INF"
    and "depth_limit < fuel"
  shows "\<exists>best engine. search_gen prune fuel sr position depth_limit = Inr (best, engine) \<and>
           score best = minimax depth_limit (root sr) position"
proof (cases depth_limit)
  case 0
  obtain f where f: "fuel = Suc f" using assms(5) by (cases fuel) auto
  show ?thesis
    using assms(1) by (simp add: 0 f search_gen_def Let_def set_score_def)
next
  case (Suc m)
  define s where "s = sr\<lparr>best_moves := replicate (depth_limit + 1) Node_default\<rparr>"
  have live: "all_live s" by (simp add: s_def all_live_def list_all_iff Node_default_def)
  have len: "depth_limit < length (best_moves s)" by (simp add: s_def)
  have c: "depth (root sr) = 0 \<longrightarrow> ordered_moves s position = None"
    using assms(2) by (simp add: s_def)
  have t: "depth_limit = 0 \<longrightarrow> \<not> is_terminal (root sr)" using Suc by simp
  have w: "prune \<longrightarrow> window_ok full_window"
    by (simp add: window_ok_def full_window_def NEG_INF_def POS_INF_def)
  obtain engine where run: "search_under_gen prune fuel s (root sr) full_window position depth_limit = Inr engine"
    and ap: "approx prune full_window (minimax depth_limit (root sr) position)
               (score (best_moves engine ! depth (root sr)))"
    using search_under_gen_minimax[OF assms(3) _ assms(5) len live t c w] assms(1)
    by auto
  have b: "NEG_INF < minimax depth_limit (root sr) position \<and>
           minimax depth_limit (root sr) position < POS_INF"
    by (rule minimax_bounded[OF assms(3,4)])
  have eq: "score (best_moves engine ! 0) = minimax depth_limit (root sr) position"
    using ap b assms(1) by (auto simp: approx_def fail_soft_def full_window_def split: if_splits)
  obtain front rest where f: "best_moves engine = front # rest"
    and "search_gen prune fuel sr position depth_limit = Inr (front, move_order (team (root sr)) engine)"
    using search_gen_of_run[OF run[unfolded s_def]] by blast
  moreover have "score front = minimax depth_limit (root sr) position"
    using eq f by simp
  ultimately show ?thesis by blast
qed

subsection \<open>The score of an interior node and the scores of its children\<close>

lemma pick_better: "(if better t r m then r else m) = pick t r m"
  by (auto simp: better_def pick_def)

lemma search_children_backed_up:
  assumes "search_children prune fuel sr p ab cs ns dl kids = Inr (sr', ns')"
    and "\<forall>k\<in>set kids. depth k = depth p + 1"
    and "list_all (\<lambda>n. \<not> is_terminal n) (visited_children prune fuel sr p ab cs ns dl kids)"
    and "\<not> is_unset (best_moves sr ! depth p)"
  shows "score (best_moves sr' ! depth p) =
           fold (pick (team p)) (map score (visited_children prune fuel sr p ab cs ns dl kids))
             (score (best_moves sr ! depth p))"
  using assms
proof (induction kids arbitrary: sr ab ns)
  case Nil
  then show ?case by simp
next
  case (Cons k rest)
  let ?d = "depth p"
  let ?t = "team p"
  let ?m = "score (best_moves sr ! ?d)"
  have dk: "depth k = ?d + 1" using Cons.prems(2) by simp
  obtain sr1 where run: "search_under_gen prune fuel sr k ab (tap k ns) dl = Inr sr1"
    using Cons.prems(1) by (cases rule: search_children_Cons_Inr) auto
  obtain st where rc0: "record_child prune sr1 p ab cs (untap k (tap k ns)) k = Inr st"
    using Cons.prems(1) run by (cases rule: search_children_Cons_Inr) auto
  define r where "r = score (best_moves sr1 ! (?d + 1))"
  have r1: "?d + 1 < length (best_moves sr1)" by (rule record_child_Inr[OF rc0])
  have same: "best_moves sr1 ! ?d = best_moves sr ! ?d"
    by (rule prefix_frame[OF run]) (simp add: dk)
  have vis0: "visited_children prune fuel sr p ab cs ns dl (k # rest) =
      (case st of Return sr2 \<Rightarrow> [best_moves sr1 ! (?d + 1)]
       | Continue sr2 ab2 \<Rightarrow> best_moves sr1 ! (?d + 1) #
           visited_children prune fuel sr2 p ab2 cs (untap k (tap k ns)) dl rest)"
    using run rc0 dk by (simp add: Let_def split: step.splits)
  have nt: "\<not> is_terminal (best_moves sr1 ! (?d + 1))"
    using Cons.prems(3) unfolding vis0 by (cases st) simp_all
  have nu: "\<not> is_unset (best_moves sr1 ! ?d)" using Cons.prems(4) same by simp
  obtain sr2 where bm2: "best_moves sr2 =
             (if better ?t r (score (best_moves sr1 ! ?d))
              then (best_moves sr1)[?d := set_score k r] else best_moves sr1)"
    and rc: "record_child prune sr1 p ab cs (untap k (tap k ns)) k =
             Inr (if better ?t r (score (best_moves sr1 ! ?d))
                  then (if prune \<and> can_prune (update_if_needed ab r ?t) r ?t
                        then Return sr2
                        else Continue sr2 (update_if_needed ab r ?t))
                  else Continue sr2 ab)"
    using record_child_outcome[OF r1 nt nu, of k prune ab cs "untap k (tap k ns)"] unfolding r_def by blast
  have m1: "score (best_moves sr1 ! ?d) = ?m" using same by simp
  have sc2: "score (best_moves sr2 ! ?d) = pick ?t r ?m"
    using bm2 m1 r1 by (simp add: set_score_def pick_better[symmetric])
  have un2: "\<not> is_unset (best_moves sr2 ! ?d)"
    using bm2 nu r1 by (simp add: set_score_def)
  show ?case
  proof (cases "better ?t r ?m \<and> prune \<and> can_prune (update_if_needed ab r ?t) r ?t")
    case True
    have st: "st = Return sr2" using rc rc0 True m1 by simp
    have "search_children prune fuel sr p ab cs ns dl (k # rest) = Inr (sr2, untap k (tap k ns))"
      using run rc True m1 by (simp add: Let_def)
    then have "sr' = sr2" using Cons.prems(1) by simp
    moreover have "visited_children prune fuel sr p ab cs ns dl (k # rest) = [best_moves sr1 ! (?d + 1)]"
      unfolding vis0 st by simp
    ultimately show ?thesis using sc2 by (simp add: r_def)
  next
    case False
    define ab2 where "ab2 = (if better ?t r ?m then update_if_needed ab r ?t else ab)"
    have st: "st = Continue sr2 ab2" using rc rc0 False m1 by (auto simp: ab2_def)
    have step: "search_children prune fuel sr p ab cs ns dl (k # rest) =
        search_children prune fuel sr2 p ab2 cs (untap k (tap k ns)) dl rest"
      using run rc0 st by (simp add: Let_def)
    have vis: "visited_children prune fuel sr p ab cs ns dl (k # rest) =
        best_moves sr1 ! (?d + 1) # visited_children prune fuel sr2 p ab2 cs (untap k (tap k ns)) dl rest"
      unfolding vis0 st by simp
    have "score (best_moves sr' ! ?d) =
        fold (pick ?t) (map score (visited_children prune fuel sr2 p ab2 cs (untap k (tap k ns)) dl rest))
          (score (best_moves sr2 ! ?d))"
    proof (rule Cons.IH)
      show "search_children prune fuel sr2 p ab2 cs (untap k (tap k ns)) dl rest = Inr (sr', ns')"
        using Cons.prems(1) step by simp
      show "\<forall>k\<in>set rest. depth k = ?d + 1" using Cons.prems(2) by simp
      show "list_all (\<lambda>n. \<not> is_terminal n)
          (visited_children prune fuel sr2 p ab2 cs (untap k (tap k ns)) dl rest)"
        using Cons.prems(3) unfolding vis by simp
      show "\<not> is_unset (best_moves sr2 ! ?d)" by (rule un2)
    qed
    then show ?thesis unfolding vis sc2 by (simp add: r_def)
  qed
qed

lemma search_under_gen_backed_up:
  assumes "search_under_gen prune (Suc fuel) sr p ab cs dl = Inr sr'"
    and "depth p < dl" "depth p = 0 \<longrightarrow> ordered_moves sr cs = None" "expand p cs \<noteq> []"
    and "list_all (\<lambda>n. \<not> is_terminal n) (backed_up_children prune fuel sr p ab cs dl)"
  shows "score (best_moves sr' ! depth p) =
           fold (pick (team p)) (map score (backed_up_children prune fuel sr p ab cs dl))
             (if team p = HOME then NEG_INF else POS_INF)"
proof -
  have g: "get_children sr p cs = (expand p cs, sr)"
    using assms(3) by (rule get_children_expand)
  from assms(1) show ?thesis
  proof (cases rule: search_under_gen_Suc_Inr)
    case Horizon
    then show ?thesis using assms(2) by simp
  next
    case Terminal
    then show ?thesis using assms(4) g by simp
  next
    case (Interior ns')
    let ?sr0 = "reset_best sr p"
    have loop: "search_children prune fuel ?sr0 p ab cs (togglePlayer cs) dl (expand p cs) = Inr (sr', ns')"
      using Interior(4) g by simp
    have vis: "backed_up_children prune fuel sr p ab cs dl =
        visited_children prune fuel ?sr0 p ab cs (togglePlayer cs) dl (expand p cs)"
      by (simp add: backed_up_children_def g)
    have sc0: "score (best_moves ?sr0 ! depth p) = (if team p = HOME then NEG_INF else POS_INF)"
      and un0: "\<not> is_unset (best_moves ?sr0 ! depth p)"
      using Interior(2) by (simp_all add: reset_best_def set_score_def)
    have "score (best_moves sr' ! depth p) =
        fold (pick (team p)) (map score (visited_children prune fuel ?sr0 p ab cs (togglePlayer cs) dl (expand p cs)))
          (score (best_moves ?sr0 ! depth p))"
      by (rule search_children_backed_up[OF loop _ _ un0])
         (use assms(5) vis expand_depth in auto)
    then show ?thesis unfolding vis sc0 .
  qed
qed


subsection \<open>Runs of the engine on small boards\<close>

lemma map_sum_Inr_projr:
  "map_sum id f x = Inr v \<Longrightarrow> \<not> isl x \<and> f (projr x) = v"
  by (cases x) auto

lemma terminal_cutoff_3x3:
  "\<not> isl (search 4 (fresh_engine HOME) board_3x3 3) \<and>
   score (fst (projr (search 4 (fresh_engine HOME) board_3x3 3))) = 0 \<and>
   \<not> is_terminal (fst (projr (search 4 (fresh_engine HOME) board_3x3 3))) \<and>
   \<not> isl (search_gen False 4 (fresh_engine HOME) board_3x3 3) \<and>
   score (fst (projr (search_gen False 4 (fresh_engine HOME) board_3x3 3))) = POS_INF \<and>
   is_terminal (fst (projr (search_gen False 4 (fresh_engine HOME) board_3x3 3)))"
  by code_simp

lemma first_search_3x4:
  "map_sum id (\<lambda>p. map (\<lambda>k. (depth k, score k)) (case_option [] id (ordered_moves (snd p) reply_3x4)))
     (search 4 (fresh_engine HOME) empty_3x4 3) = Inr [(3, 2), (3, 1)]"
  by code_simp

lemma consuming_search_3x4:
  "map_sum id (\<lambda>p. (score (fst p), is_terminal (fst p), depth (fst p)))
     (search 4 engine_after_3x4 reply_3x4 3) = Inr (0, False, 3)"
  by code_simp

lemma consuming_children_3x4:
  "map (\<lambda>n. (score n, is_terminal n))
     (backed_up_children True 3 (engine_after_3x4\<lparr>best_moves := replicate 4 Node_default\<rparr>)
        (root engine_after_3x4) full_window reply_3x4 3) = [(2, False), (1, False)]"
  by code_simp

lemma fresh_search_3x4:
  "map_sum id (\<lambda>p. (score (fst p), is_terminal (fst p), depth (fst p)))
     (search 4 (fresh_engine HOME) reply_3x4 3) = Inr (2, False, 1) \<and>
   map_sum id (\<lambda>p. (score (fst p), is_terminal (fst p), depth (fst p)))
     (search_gen False 4 (fresh_engine HOME) reply_3x4 3) = Inr (2, False, 1)"
  by code_simp

lemma playable_3x4: "playable 3 (root (fresh_engine HOME)) reply_3x4"
  by code_simp


lemma second_move_run:
  "map_sum id (\<lambda>e. score (best_moves e ! 1))
     (search_under_gen True 2 engine_depth2 second_move narrow_window after_second_move 2) = Inr 2 \<and>
   map score (backed_up_children True 1 engine_depth2 second_move narrow_window after_second_move 2)
     = [2] \<and>
   map score (backed_up_children False 1 engine_depth2 second_move narrow_window after_second_move 2)
     = [2, 0] \<and>
   list_all (\<lambda>node. \<not> is_terminal node)
     (backed_up_children True 1 engine_depth2 second_move narrow_window after_second_move 2) \<and>
   expand second_move after_second_move \<noteq> [] \<and>
   playable 1 second_move after_second_move \<and>
   map_sum id (\<lambda>e. score (best_moves e ! 1))
     (search_under_gen False 2 engine_depth2 second_move narrow_window after_second_move 2) = Inr 0"
  by code_simp


section \<open>The claims\<close>

subsection \<open>Tap and untap\<close>

text \<open>
  Claim C4.  For a node whose placement the legality check accepts in a position (both cells
  on the board and empty), \<open>tap\<close> followed by \<open>untap\<close> gives back the position, cell for
  cell.  The children the move generator produces for a position are accepted in the toggled
  copy the loop works on, and the loop of \<open>search_under\<close> leaves that copy as it found it at
  each of its exits (the list exhausted, a terminal child, a cutoff) whenever the placements
  of its children are accepted in it.
\<close>

theorem tap_untap_round_trip:
  "(moveOK state (parent_move node) \<longrightarrow> untap node (tap node state) = state) \<and>
   (\<forall>child \<in> set (expand parent current_state).
      moveOK (togglePlayer current_state) (parent_move child)) \<and>
   ((\<forall>child \<in> set children. moveOK next_state (parent_move child)) \<and>
    search_children prune fuel sr parent ab current_state next_state depth_limit children
      = Inr (sr', ns') \<longrightarrow> ns' = next_state)"
  using untap_tap expand_moveOK search_children_next_state
  by (metis moveOK_togglePlayer)

theorem tap_untap_round_trip_witness:
  "moveOK board_2x2 (parent_move (hd (expand (root (fresh_engine HOME)) board_2x2))) \<and>
   untap (hd (expand (root (fresh_engine HOME)) board_2x2))
     (tap (hd (expand (root (fresh_engine HOME)) board_2x2)) board_2x2) = board_2x2 \<and>
   list_all (\<lambda>child. moveOK (togglePlayer board_2x2) (parent_move child))
     (expand (root (fresh_engine HOME)) board_2x2) \<and>
   \<not> isl (search_children True 1
            ((fresh_engine HOME)\<lparr>best_moves := replicate 2 Node_default\<rparr>)
            (root (fresh_engine HOME)) full_window board_2x2 (togglePlayer board_2x2) 1
            (expand (root (fresh_engine HOME)) board_2x2)) \<and>
   snd (projr (search_children True 1
            ((fresh_engine HOME)\<lparr>best_moves := replicate 2 Node_default\<rparr>)
            (root (fresh_engine HOME)) full_window board_2x2 (togglePlayer board_2x2) 1
            (expand (root (fresh_engine HOME)) board_2x2))) = togglePlayer board_2x2"
proof -
  let ?p = "root (fresh_engine HOME)"
  let ?kids = "expand ?p board_2x2"
  let ?run = "search_children True 1
            ((fresh_engine HOME)\<lparr>best_moves := replicate 2 Node_default\<rparr>)
            ?p full_window board_2x2 (togglePlayer board_2x2) 1 ?kids"
  have ok: "moveOK board_2x2 (parent_move (hd ?kids))"
    by code_simp
  have oks: "\<forall>child \<in> set ?kids. moveOK (togglePlayer board_2x2) (parent_move child)"
    by (simp add: expand_moveOK)
  have run: "\<not> isl ?run"
    by code_simp
  then obtain sr' ns' where res: "?run = Inr (sr', ns')"
    by (cases ?run) auto
  note rt = tap_untap_round_trip[where state = board_2x2 and node = "hd ?kids"
      and parent = ?p and current_state = board_2x2 and children = ?kids
      and next_state = "togglePlayer board_2x2" and prune = True and fuel = 1
      and sr = "(fresh_engine HOME)\<lparr>best_moves := replicate 2 Node_default\<rparr>"
      and ab = full_window and depth_limit = 1 and sr' = sr' and ns' = ns']
  from rt ok have "untap (hd ?kids) (tap (hd ?kids) board_2x2) = board_2x2"
    by blast
  moreover from rt oks res have "ns' = togglePlayer board_2x2"
    by blast
  ultimately show ?thesis
    using ok oks run res by (simp add: list_all_iff)
qed

subsection \<open>Move generation\<close>

text \<open>
  Claim C6, as stated, fails on the tag: \<open>expand\<close> of Searcher.cpp chooses the orientation
  by the parent's team (horizontal for Home), and tags the children with the other team.
  On the empty 1 by 2 board with a Home parent the only child is the horizontal placement,
  tagged Away.
\<close>

theorem expand_tag_counterexample:
  "team (Node_default\<lparr>team := HOME\<rparr>) = HOME \<and> who board_1x2 = HOME \<and>
   map parent_move (expand (Node_default\<lparr>team := HOME\<rparr>) board_1x2)
     = [\<lparr>r1 = 0, c1 = 0, r2 = 0, c2 = 1\<rparr>] \<and>
   map team (expand (Node_default\<lparr>team := HOME\<rparr>) board_1x2) = [AWAY]"
  by code_simp

text \<open>
  Claim C6, amended.  \<open>expand\<close> returns exactly one unscored child for each first cell, in
  row-major order, whose candidate placement (to the right of the cell for a Home parent,
  below it for an Away parent) the legality check of the position accepts; each child carries
  that placement, the depth of the parent plus one, and the team opposite to the parent's,
  that is the side to move after the placement.
  The first cells of the children are strictly increasing in the row-major order.  The older
  variant of part_000 enumerates in the same way, with the orientation chosen by the player to
  move of the position, and tags the children with that player.
\<close>

theorem expand_enumerates_legal_placements:
  "expand parent state =
     map (\<lambda>p. \<lparr>team = (if team parent = HOME then AWAY else HOME), depth = depth parent + 1,
               parent_move = candidate (team parent) p,
               score = 0, is_terminal = False, is_unset = True\<rparr>)
       (filter (\<lambda>p. moveOK state (candidate (team parent) p))
          (List.product [0 ..< ROWS state] [0 ..< COLS state])) \<and>
   sorted_wrt row_major (map first_cell (expand parent state)) \<and>
   expand_part_000 parent state =
     map (\<lambda>p. \<lparr>team = who state, depth = depth parent + 1,
               parent_move = candidate (who state) p,
               score = 0, is_terminal = False, is_unset = True\<rparr>)
       (filter (\<lambda>p. moveOK state (candidate (who state) p))
          (List.product [0 ..< ROWS state] [0 ..< COLS state])) \<and>
   sorted_wrt row_major (map first_cell (expand_part_000 parent state))"
proof (intro conjI)
  show "expand parent state =
     map (\<lambda>p. \<lparr>team = (if team parent = HOME then AWAY else HOME), depth = depth parent + 1,
               parent_move = candidate (team parent) p,
               score = 0, is_terminal = False, is_unset = True\<rparr>)
       (filter (\<lambda>p. moveOK state (candidate (team parent) p))
          (List.product [0 ..< ROWS state] [0 ..< COLS state]))"
    by (simp add: expand_eq child_of_def Node_new_def cong: map_cong)
  show "sorted_wrt row_major (map first_cell (expand parent state))"
    by (rule row_major_expand)
  show "expand_part_000 parent state =
     map (\<lambda>p. \<lparr>team = who state, depth = depth parent + 1,
               parent_move = candidate (who state) p,
               score = 0, is_terminal = False, is_unset = True\<rparr>)
       (filter (\<lambda>p. moveOK state (candidate (who state) p))
          (List.product [0 ..< ROWS state] [0 ..< COLS state]))"
    by (simp add: expand_part_000_eq Node_new_def)
  show "sorted_wrt row_major (map first_cell (expand_part_000 parent state))"
    by (rule row_major_expand_part_000)
qed

subsection \<open>The horizon and the terminal case\<close>

text \<open>
  Claim C9.  With the root placeholder at depth 0, \<open>search\<close> with depth limit 0 reaches the
  horizon at the root: whatever the position, the node returned is the root placeholder with
  the score \<open>evaluate position\<close>: its team, depth, placement and terminal flag are the
  root's, not those of a move of the position.
\<close>

theorem search_depth_zero_returns_root:
  assumes "depth (root sr) = 0"
  shows "search (Suc fuel) sr position 0 =
           Inr (set_score (root sr) (evaluate position),
                move_order (team (root sr))
                  (sr\<lparr>best_moves := [set_score (root sr) (evaluate position)]\<rparr>)) \<and>
         score (set_score (root sr) (evaluate position)) = evaluate position \<and>
         parent_move (set_score (root sr) (evaluate position)) = parent_move (root sr) \<and>
         team (set_score (root sr) (evaluate position)) = team (root sr) \<and>
         depth (set_score (root sr) (evaluate position)) = depth (root sr) \<and>
         is_terminal (set_score (root sr) (evaluate position)) = is_terminal (root sr)"
  using assms
  by (simp add: search_def search_gen_def search_under_def Let_def set_score_def)

theorem search_depth_zero_returns_root_witness:
  "depth (root (fresh_engine HOME)) = 0 \<and>
   expand (root (fresh_engine HOME)) board_2x2 \<noteq> [] \<and>
   map_sum id fst (search 1 (fresh_engine HOME) board_2x2 0) =
     Inr \<lparr>team = HOME, depth = 0, parent_move = \<lparr>r1 = 0, c1 = 0, r2 = 0, c2 = 0\<rparr>,
          score = 0, is_terminal = False, is_unset = False\<rparr>"
proof -
  have d: "depth (root (fresh_engine HOME)) = 0"
    by (simp add: fresh_engine_def Node_default_def)
  have e: "expand (root (fresh_engine HOME)) board_2x2 \<noteq> []"
    by code_simp
  have v: "evaluate board_2x2 = 0"
    by code_simp
  from search_depth_zero_returns_root[OF d, of 0 board_2x2] d e v show ?thesis
    by (simp add: fresh_engine_def Node_default_def set_score_def)
qed

text \<open>
  Claim C2, as stated, fails at the horizon: \<open>search_under\<close> tests the depth limit before it
  generates children, so a position without legal placements reached at the depth limit is
  reported with its static evaluation and without the terminal flag.  The 1 by 1 board has
  no placement; at depth limit 0 its node is reported with score 0 and not terminal.
\<close>

theorem terminal_at_horizon_counterexample:
  "expand Node_default board_1x1 = [] \<and>
   \<not> isl (search_under 1 ((fresh_engine HOME)\<lparr>best_moves := [Node_default]\<rparr>)
            Node_default full_window board_1x1 0) \<and>
   map is_terminal (best_moves (projr
      (search_under 1 ((fresh_engine HOME)\<lparr>best_moves := [Node_default]\<rparr>)
         Node_default full_window board_1x1 0))) = [False] \<and>
   map score (best_moves (projr
      (search_under 1 ((fresh_engine HOME)\<lparr>best_moves := [Node_default]\<rparr>)
         Node_default full_window board_1x1 0))) = [0]"
  by code_simp

text \<open>
  Claim C2, amended.  For a node above the depth limit whose children come from the move
  generator (at depth 0: no cached ordering for the position) and whose position has no legal
  placement for the side to move, \<open>search_under\<close> records the node at its depth as terminal,
  with the sentinel that favours the side not to move in the position: \<open>NEG_INF\<close> when Home
  is to move, \<open>POS_INF\<close> when Away is.
\<close>

theorem no_legal_placement_is_terminal:
  assumes "depth parent < depth_limit" and "depth parent < length (best_moves sr)"
    and "expand parent current_state = []"
    and "depth parent = 0 \<longrightarrow> ordered_moves sr current_state = None"
  shows "search_under (Suc fuel) sr parent ab current_state depth_limit =
           Inr (sr\<lparr>best_moves := (best_moves sr)
                     [depth parent := set_as_terminal parent current_state]\<rparr>) \<and>
         is_terminal (set_as_terminal parent current_state) \<and>
         score (set_as_terminal parent current_state) =
           (if who current_state = HOME then NEG_INF else POS_INF)"
  using assms
  by (auto simp add: search_under_def get_children_def Let_def set_as_terminal_def
      split: option.splits)

theorem no_legal_placement_is_terminal_witness:
  "depth Node_default < 1 \<and> depth Node_default < length [Node_default] \<and>
   expand Node_default board_1x1 = [] \<and>
   ordered_moves ((fresh_engine HOME)\<lparr>best_moves := [Node_default]\<rparr>) board_1x1 = None \<and>
   map_sum id best_moves
     (search_under 1 ((fresh_engine HOME)\<lparr>best_moves := [Node_default]\<rparr>)
        Node_default full_window board_1x1 1) =
     Inr [\<lparr>team = HOME, depth = 0, parent_move = \<lparr>r1 = 0, c1 = 0, r2 = 0, c2 = 0\<rparr>,
           score = NEG_INF, is_terminal = True, is_unset = False\<rparr>]"
proof -
  let ?sr = "(fresh_engine HOME)\<lparr>best_moves := [Node_default]\<rparr>"
  have h1: "depth Node_default < 1" by (simp add: Node_default_def)
  have h2: "depth Node_default < length (best_moves ?sr)" by (simp add: Node_default_def)
  have h3: "expand Node_default board_1x1 = []" by code_simp
  have h4: "depth Node_default = 0 \<longrightarrow> ordered_moves ?sr board_1x1 = None"
    by (simp add: fresh_engine_def)
  from no_legal_placement_is_terminal[OF h1 h2 h3 h4, of 0 full_window] h1 h3 h4
  show ?thesis
    by (simp add: Node_default_def set_as_terminal_def board_1x1_def fresh_engine_def)
qed

subsection \<open>The move-order cache\<close>

text \<open>
  Claim C10.  When \<open>search_under\<close> consumes a cached ordering (the parent is at depth 0,
  above the depth limit, and the cache has an entry for its position), child generation
  returns the cached list and an engine whose cache is empty; the call behaves as if the
  consumed entry had been the only one; and, the cached nodes being the depth-3 nodes the
  engine stores, the cache of the engine the call returns has no entry for any position,
  the consumed one or another.
\<close>

theorem consumed_ordering_empties_cache:
  assumes "depth parent = 0" and "0 < depth_limit"
    and "ordered_moves sr current_state = Some ordered"
  shows "get_children sr parent current_state = (ordered, sr\<lparr>ordered_moves := Map.empty\<rparr>) \<and>
         search_under fuel sr parent ab current_state depth_limit =
           search_under fuel (sr\<lparr>ordered_moves := [current_state \<mapsto> ordered]\<rparr>)
             parent ab current_state depth_limit \<and>
         ((\<forall>k \<in> set ordered. 2 < depth k) \<and>
          search_under fuel sr parent ab current_state depth_limit = Inr sr'
            \<longrightarrow> ordered_moves sr' other_state = None)"
proof (intro conjI impI)
  show g: "get_children sr parent current_state = (ordered, sr\<lparr>ordered_moves := Map.empty\<rparr>)"
    using assms by (simp add: get_children_consume)
  have g': "get_children (sr\<lparr>ordered_moves := [current_state \<mapsto> ordered]\<rparr>) parent current_state
      = (ordered, sr\<lparr>ordered_moves := Map.empty\<rparr>)"
    using assms(1) by (simp add: get_children_def)
  show "search_under fuel sr parent ab current_state depth_limit =
           search_under fuel (sr\<lparr>ordered_moves := [current_state \<mapsto> ordered]\<rparr>)
             parent ab current_state depth_limit"
    using assms(1,2) by (cases fuel) (simp_all add: search_under_def g g')
next
  assume "(\<forall>k \<in> set ordered. 2 < depth k) \<and>
          search_under fuel sr parent ab current_state depth_limit = Inr sr'"
  then have "ordered_moves sr' = Map.empty"
    using consumed_cache_empty[OF assms(1,3), of True fuel ab depth_limit sr'] assms(2)
    by (simp add: search_under_def)
  then show "ordered_moves sr' other_state = None" by simp
qed

theorem consumed_ordering_empties_cache_witness:
  "depth Node_default = 0 \<and> (0::nat) < 3 \<and>
   ordered_moves engine_with_cache board_2x2 = Some [cached_child] \<and>
   ordered_moves engine_with_cache board_1x2 = Some [cached_child] \<and>
   list_all (\<lambda>k. 2 < depth k) [cached_child] \<and>
   \<not> isl (search_under 2 engine_with_cache Node_default full_window board_2x2 3) \<and>
   ordered_moves (projr (search_under 2 engine_with_cache Node_default full_window board_2x2 3))
     board_1x2 = None \<and>
   ordered_moves (projr (search_under 2 engine_with_cache Node_default full_window board_2x2 3))
     board_2x2 = None"
proof -
  let ?run = "search_under 2 engine_with_cache Node_default full_window board_2x2 3"
  have d: "depth Node_default = 0" by (simp add: Node_default_def)
  have e1: "ordered_moves engine_with_cache board_2x2 = Some [cached_child]"
    by (simp add: engine_with_cache_def board_2x2_def board_1x2_def)
  have e2: "ordered_moves engine_with_cache board_1x2 = Some [cached_child]"
    by (simp add: engine_with_cache_def board_2x2_def board_1x2_def)
  have k: "\<forall>k \<in> set [cached_child]. 2 < depth k" by (simp add: cached_child_def)
  have run: "\<not> isl ?run" by code_simp
  then obtain sr' where res: "?run = Inr sr'" by (cases ?run) auto
  have l: "(0::nat) < 3" by simp
  from consumed_ordering_empties_cache[OF d l e1, of 2 full_window sr' board_1x2] k res
  have "ordered_moves sr' board_1x2 = None" by blast
  moreover from consumed_ordering_empties_cache[OF d l e1, of 2 full_window sr' board_2x2] k res
  have "ordered_moves sr' board_2x2 = None" by blast
  ultimately show ?thesis using d e1 e2 k run res by (simp add: list_all_iff)
qed



subsection \<open>Determinism\<close>

text \<open>
  Claim C8.  For a position and a depth limit, two engines with the same root placeholder (at
  depth 0) and an empty cache return the same best node (move and score) and reach the same
  state, whatever their best-moves tables held before and whatever the fuel of the two runs
  beyond the depth limit: the search returns, and what it returns is a function of the root,
  the position and the depth limit.
\<close>

theorem search_deterministic:
  assumes "root sr1 = root sr2" "depth (root sr1) = 0"
    and "ordered_moves sr1 = Map.empty" "ordered_moves sr2 = Map.empty"
    and "depth_limit < fuel1" "depth_limit < fuel2"
  shows "\<exists>best engine. search fuel1 sr1 position depth_limit = Inr (best, engine) \<and>
                       search fuel2 sr2 position depth_limit = Inr (best, engine)"
proof -
  let ?s1 = "sr1\<lparr>best_moves := replicate (depth_limit + 1) Node_default\<rparr>"
  let ?s2 = "sr2\<lparr>best_moves := replicate (depth_limit + 1) Node_default\<rparr>"
  have eq: "?s1 = ?s2" using assms(1,3,4) by simp
  obtain sr' where r: "search_under_gen True (Suc depth_limit) ?s1 (root sr1) full_window position depth_limit = Inr sr'"
    using search_under_gen_succeeds[of "root sr1" depth_limit ?s1 "Suc depth_limit" position True full_window]
      assms(2,3) by auto
  have r1: "search_under_gen True fuel1 ?s1 (root sr1) full_window position depth_limit = Inr sr'"
    using search_under_gen_fuel_mono[OF r] assms(5) by simp
  have r2: "search_under_gen True fuel2 ?s2 (root sr2) full_window position depth_limit = Inr sr'"
    using search_under_gen_fuel_mono[OF r] assms(1,6) eq by simp
  have "length (best_moves sr') = depth_limit + 1"
    using search_under_gen_length[OF r] by simp
  then obtain front rest where f: "best_moves sr' = front # rest"
    by (cases "best_moves sr'") auto
  have "root sr' = root sr1" using root_unchanged[OF r] by simp
  then show ?thesis
    using r1 r2 f assms(1) by (simp add: search_def search_gen_def Let_def full_window_def)
qed

theorem search_deterministic_witness:
  "root (fresh_engine HOME) = root ((fresh_engine HOME)\<lparr>best_moves := [cached_child]\<rparr>) \<and>
   depth (root (fresh_engine HOME)) = 0 \<and>
   ordered_moves (fresh_engine HOME) = Map.empty \<and>
   ordered_moves ((fresh_engine HOME)\<lparr>best_moves := [cached_child]\<rparr>) = Map.empty \<and>
   (2::nat) < 3 \<and> (2::nat) < 5 \<and>
   (\<exists>best engine.
      search 3 (fresh_engine HOME) board_2x2 2 = Inr (best, engine) \<and>
      search 5 ((fresh_engine HOME)\<lparr>best_moves := [cached_child]\<rparr>) board_2x2 2
        = Inr (best, engine)) \<and>
   map_sum id fst (search 3 (fresh_engine HOME) board_2x2 2) =
     Inr \<lparr>team = AWAY, depth = 1, parent_move = \<lparr>r1 = 0, c1 = 0, r2 = 0, c2 = 1\<rparr>,
          score = POS_INF, is_terminal = True, is_unset = False\<rparr>"
proof -
  have h1: "root (fresh_engine HOME) = root ((fresh_engine HOME)\<lparr>best_moves := [cached_child]\<rparr>)"
    by simp
  have h2: "depth (root (fresh_engine HOME)) = 0"
    by (simp add: fresh_engine_def Node_default_def)
  have h3: "ordered_moves (fresh_engine HOME) = Map.empty"
    by (simp add: fresh_engine_def)
  have h4: "ordered_moves ((fresh_engine HOME)\<lparr>best_moves := [cached_child]\<rparr>) = Map.empty"
    by (simp add: fresh_engine_def)
  have v: "map_sum id fst (search 3 (fresh_engine HOME) board_2x2 2) =
     Inr \<lparr>team = AWAY, depth = 1, parent_move = \<lparr>r1 = 0, c1 = 0, r2 = 0, c2 = 1\<rparr>,
          score = POS_INF, is_terminal = True, is_unset = False\<rparr>"
    by code_simp
  from search_deterministic[OF h1 h2 h3 h4, of 2 3 5 board_2x2] h1 h2 h3 h4 v
  show ?thesis by simp
qed

subsection \<open>Evaluation\<close>



subsection \<open>Minimax consistency\<close>

text \<open>
  Claim C1, as stated, fails in two ways.  First, a child that reports a terminal node makes
  \<open>search_under\<close> return at once, marked terminal with a sentinel, whatever the scores of its
  siblings, and a cutoff can skip the sibling that would report it: on the 3 by 3 position
  with depth limit 3, the search with pruning returns a root score of 0 on a node that is not
  terminal, and the same search with pruning disabled returns a terminal node with the
  sentinel \<open>POS_INF\<close>.  Second, a root that consumes a cached ordering does not record the
  maximum of its children's scores: the cached nodes keep the depth 3 they were stored with,
  so the calls on them leave their scores at depth 3, while the loop reads the best node at
  depth 1, which no call has written.  After a search of the empty 3 by 4 board with depth
  limit 3, the search of the position after Home's first move and Away's reply (a position
  from which every line of play has a placement for three plies, and whose minimax value, the
  score a fresh engine returns with and without pruning, is 2) visits the two cached children,
  whose backed-up scores are 2 and 1, and returns the root score 0.
\<close>

theorem pruning_changes_root_score_counterexample:
  "\<not> isl (search 4 (fresh_engine HOME) board_3x3 3) \<and>
   score (fst (projr (search 4 (fresh_engine HOME) board_3x3 3))) = 0 \<and>
   \<not> is_terminal (fst (projr (search 4 (fresh_engine HOME) board_3x3 3))) \<and>
   \<not> isl (search_gen False 4 (fresh_engine HOME) board_3x3 3) \<and>
   score (fst (projr (search_gen False 4 (fresh_engine HOME) board_3x3 3))) = POS_INF \<and>
   is_terminal (fst (projr (search_gen False 4 (fresh_engine HOME) board_3x3 3))) \<and>
   \<not> isl (search 4 (fresh_engine HOME) empty_3x4 3) \<and>
   map (\<lambda>k. (depth k, score k)) (case_option [] id (ordered_moves engine_after_3x4 reply_3x4))
     = [(3, 2), (3, 1)] \<and>
   playable 3 (root (fresh_engine HOME)) reply_3x4 \<and>
   \<not> isl (search 4 (fresh_engine HOME) reply_3x4 3) \<and>
   score (fst (projr (search 4 (fresh_engine HOME) reply_3x4 3))) = 2 \<and>
   \<not> isl (search_gen False 4 (fresh_engine HOME) reply_3x4 3) \<and>
   score (fst (projr (search_gen False 4 (fresh_engine HOME) reply_3x4 3))) = 2 \<and>
   \<not> isl (search 4 engine_after_3x4 reply_3x4 3) \<and>
   score (fst (projr (search 4 engine_after_3x4 reply_3x4 3))) = 0 \<and>
   \<not> is_terminal (fst (projr (search 4 engine_after_3x4 reply_3x4 3))) \<and>
   map (\<lambda>n. (score n, is_terminal n))
     (backed_up_children True 3 (engine_after_3x4\<lparr>best_moves := replicate 4 Node_default\<rparr>)
        (root engine_after_3x4) full_window reply_3x4 3) = [(2, False), (1, False)]"
proof -
  note a = terminal_cutoff_3x3
  note b = map_sum_Inr_projr[OF first_search_3x4]
  note c = map_sum_Inr_projr[OF consuming_search_3x4]
  note d = map_sum_Inr_projr[OF conjunct1[OF fresh_search_3x4]]
  note e = map_sum_Inr_projr[OF conjunct2[OF fresh_search_3x4]]
  show ?thesis
    using a b c d e playable_3x4 consuming_children_3x4
    by (simp add: engine_after_3x4_def)
qed

text \<open>
  Claim C1, amended, for nodes whose children come from the move generator (any node below
  the root, and a root without a cached ordering for its position).  For every such interior
  node, with pruning or without, if no child visited reports a terminal node then the score
  recorded at the depth of the node is the maximum (Home) or minimum (Away) of the backed-up
  scores of the children visited, the siblings after a cutoff being left out.  On a tree in
  which every position within the depth limit has a legal placement (no terminal node is
  met), the call on a node returns, and the score it records stands in the fail-soft relation
  of alpha-beta search to the minimax value of the node for the window of the call (equal to
  it inside the window, a bound on the side of the window it falls on), and is equal to it
  with pruning disabled.  For a root at depth 0 on such a tree, on a board small enough for
  evaluations to lie strictly between the sentinels, the search with pruning and the search
  with pruning disabled return the same root score, the minimax value of the position.
\<close>

theorem pruning_preserves_minimax_score:
  "(search_under_gen prune (Suc fuel) sr parent ab current_state depth_limit = Inr sr' \<and>
    depth parent < depth_limit \<and> (depth parent = 0 \<longrightarrow> ordered_moves sr current_state = None) \<and>
    expand parent current_state \<noteq> [] \<and>
    list_all (\<lambda>node. \<not> is_terminal node)
      (backed_up_children prune fuel sr parent ab current_state depth_limit)
      \<longrightarrow> score (best_moves sr' ! depth parent) =
            fold (pick (team parent))
              (map score (backed_up_children prune fuel sr parent ab current_state depth_limit))
              (if team parent = HOME then NEG_INF else POS_INF)) \<and>
   (playable n parent current_state \<and> depth parent + n = depth_limit \<and> n < fuel \<and>
    depth_limit < length (best_moves sr) \<and>
    list_all (\<lambda>node. \<not> is_terminal node) (best_moves sr) \<and>
    (depth parent = 0 \<longrightarrow> ordered_moves sr current_state = None) \<and> (prune \<longrightarrow> window_ok ab)
      \<longrightarrow> (\<exists>sr'. search_under_gen prune fuel sr parent ab current_state depth_limit = Inr sr' \<and>
                 approx prune ab (minimax n parent current_state)
                   (score (best_moves sr' ! depth parent)))) \<and>
   (depth (root sr) = 0 \<and> ordered_moves sr position = None \<and>
    playable depth_limit (root sr) position \<and>
    3 * int (ROWS position * COLS position) < POS_INF \<and> depth_limit < fuel
      \<longrightarrow> (\<exists>best engine best' engine'.
             search fuel sr position depth_limit = Inr (best, engine) \<and>
             search_gen False fuel sr position depth_limit = Inr (best', engine') \<and>
             score best = minimax depth_limit (root sr) position \<and>
             score best' = score best))"
proof (intro conjI impI)
  assume a: "search_under_gen prune (Suc fuel) sr parent ab current_state depth_limit = Inr sr' \<and>
    depth parent < depth_limit \<and> (depth parent = 0 \<longrightarrow> ordered_moves sr current_state = None) \<and>
    expand parent current_state \<noteq> [] \<and>
    list_all (\<lambda>node. \<not> is_terminal node)
      (backed_up_children prune fuel sr parent ab current_state depth_limit)"
  show "score (best_moves sr' ! depth parent) =
      fold (pick (team parent))
        (map score (backed_up_children prune fuel sr parent ab current_state depth_limit))
        (if team parent = HOME then NEG_INF else POS_INF)"
    by (rule search_under_gen_backed_up) (use a in \<open>simp_all del: search_under_gen.simps\<close>)
next
  assume a: "playable n parent current_state \<and> depth parent + n = depth_limit \<and> n < fuel \<and>
    depth_limit < length (best_moves sr) \<and>
    list_all (\<lambda>node. \<not> is_terminal node) (best_moves sr) \<and>
    (depth parent = 0 \<longrightarrow> ordered_moves sr current_state = None) \<and> (prune \<longrightarrow> window_ok ab)"
  show "\<exists>sr'. search_under_gen prune fuel sr parent ab current_state depth_limit = Inr sr' \<and>
      approx prune ab (minimax n parent current_state) (score (best_moves sr' ! depth parent))"
  proof (cases n)
    case 0
    obtain f where f: "fuel = Suc f" using a by (cases fuel) auto
    have "search_under_gen prune fuel sr parent ab current_state depth_limit =
        Inr (sr\<lparr>best_moves := (best_moves sr)
               [depth parent := set_score parent (evaluate current_state)]\<rparr>)"
      using a 0 by (simp add: f)
    moreover have "score ((best_moves sr)[depth parent := set_score parent (evaluate current_state)]
        ! depth parent) = minimax n parent current_state"
      using a 0 by (simp add: set_score_def)
    ultimately show ?thesis by (simp add: approx_refl)
  next
    case (Suc m)
    have "\<exists>sr'. search_under_gen prune fuel sr parent ab current_state depth_limit = Inr sr' \<and>
        approx prune ab (minimax n parent current_state) (score (best_moves sr' ! depth parent)) \<and>
        all_live sr'"
      by (rule search_under_gen_minimax[where n = n]) (use a Suc in \<open>simp_all add: all_live_def\<close>)
    then show ?thesis by blast
  qed
next
  assume a: "depth (root sr) = 0 \<and> ordered_moves sr position = None \<and>
    playable depth_limit (root sr) position \<and>
    3 * int (ROWS position * COLS position) < POS_INF \<and> depth_limit < fuel"
  from a have "\<exists>best engine. search_gen True fuel sr position depth_limit = Inr (best, engine) \<and>
      score best = minimax depth_limit (root sr) position"
    by (intro search_gen_minimax) simp_all
  then obtain best engine where 1: "search_gen True fuel sr position depth_limit = Inr (best, engine)"
      "score best = minimax depth_limit (root sr) position"
    by auto
  from a have "\<exists>best engine. search_gen False fuel sr position depth_limit = Inr (best, engine) \<and>
      score best = minimax depth_limit (root sr) position"
    by (intro search_gen_minimax) simp_all
  then obtain best' engine' where 2: "search_gen False fuel sr position depth_limit = Inr (best', engine')"
      "score best' = minimax depth_limit (root sr) position"
    by auto
  from 1 2 show "\<exists>best engine best' engine'.
             search fuel sr position depth_limit = Inr (best, engine) \<and>
             search_gen False fuel sr position depth_limit = Inr (best', engine') \<and>
             score best = minimax depth_limit (root sr) position \<and>
             score best' = score best"
    by (simp add: search_def)
qed

theorem pruning_preserves_minimax_score_witness:
  "\<not> isl (search_under_gen True 2 engine_depth2 second_move narrow_window after_second_move 2) \<and>
   depth second_move = 1 \<and> team second_move = AWAY \<and>
   expand second_move after_second_move \<noteq> [] \<and>
   list_all (\<lambda>node. \<not> is_terminal node)
     (backed_up_children True 1 engine_depth2 second_move narrow_window after_second_move 2) \<and>
   map score (backed_up_children True 1 engine_depth2 second_move narrow_window after_second_move 2)
     = [2] \<and>
   map score (backed_up_children False 1 engine_depth2 second_move narrow_window after_second_move 2)
     = [2, 0] \<and>
   score (best_moves (projr (search_under_gen True 2 engine_depth2 second_move narrow_window
      after_second_move 2)) ! depth second_move) = 2 \<and>
   playable 1 second_move after_second_move \<and>
   2 < length (best_moves engine_depth2) \<and>
   list_all (\<lambda>node. \<not> is_terminal node) (best_moves engine_depth2) \<and>
   window_ok narrow_window \<and>
   minimax 1 second_move after_second_move = 0 \<and>
   approx True narrow_window (minimax 1 second_move after_second_move) 2 \<and>
   depth (root (fresh_engine HOME)) = 0 \<and>
   ordered_moves (fresh_engine HOME) board_3x3 = None \<and>
   playable 2 (root (fresh_engine HOME)) board_3x3 \<and>
   3 * int (ROWS board_3x3 * COLS board_3x3) < POS_INF \<and>
   minimax 2 (root (fresh_engine HOME)) board_3x3 = 2 \<and>
   (\<exists>best engine best' engine'.
      search 3 (fresh_engine HOME) board_3x3 2 = Inr (best, engine) \<and>
      search_gen False 3 (fresh_engine HOME) board_3x3 2 = Inr (best', engine') \<and>
      score best = 2 \<and> score best' = 2)"
proof -
  let ?run = "search_under_gen True 2 engine_depth2 second_move narrow_window after_second_move 2"
  let ?full = "search_under_gen False 2 engine_depth2 second_move narrow_window after_second_move 2"
  let ?kids = "backed_up_children True 1 engine_depth2 second_move narrow_window after_second_move 2"
  note rt = pruning_preserves_minimax_score
  note m = second_move_run
  have m1: "map_sum id (\<lambda>e. score (best_moves e ! 1)) ?run = Inr 2"
    and m2: "map score ?kids = [2]"
    and m3: "map score (backed_up_children False 1 engine_depth2 second_move narrow_window
               after_second_move 2) = [2, 0]"
    and m4: "list_all (\<lambda>node. \<not> is_terminal node) ?kids"
    and m5: "expand second_move after_second_move \<noteq> []"
    and m6: "playable 1 second_move after_second_move"
    and m7: "map_sum id (\<lambda>e. score (best_moves e ! 1)) ?full = Inr 0"
    using m by blast+
  have i: "\<not> isl ?run"
    using map_sum_Inr_projr[OF m1] by blast
  then obtain sr1 where r1: "?run = Inr sr1" by (cases ?run) auto
  have r1': "search_under_gen True (Suc 1) engine_depth2 second_move narrow_window
      after_second_move 2 = Inr sr1"
    using r1 by (simp only: Suc_1)
  have k1: "depth second_move = 1" and k2: "team second_move = AWAY"
    by (simp_all add: second_move_def Node_new_def)
  have e1: "2 < length (best_moves engine_depth2)"
    and e2: "list_all (\<lambda>node. \<not> is_terminal node) (best_moves engine_depth2)"
    by (simp_all add: engine_depth2_def Node_default_def list_all_iff)
  have w: "window_ok narrow_window"
    by (simp add: window_ok_def narrow_window_def NEG_INF_def POS_INF_def)
  have a1: "score (best_moves sr1 ! depth second_move) =
      fold (pick (team second_move)) (map score ?kids)
        (if team second_move = HOME then NEG_INF else POS_INF)"
  proof (rule rt[where prune = True and fuel = 1 and sr = engine_depth2 and parent = second_move
        and ab = narrow_window and current_state = after_second_move and depth_limit = 2
        and sr' = sr1, THEN conjunct1, THEN mp])
    show "search_under_gen True (Suc 1) engine_depth2 second_move narrow_window
        after_second_move 2 = Inr sr1 \<and>
      depth second_move < 2 \<and>
      (depth second_move = 0 \<longrightarrow> ordered_moves engine_depth2 after_second_move = None) \<and>
      expand second_move after_second_move \<noteq> [] \<and>
      list_all (\<lambda>node. \<not> is_terminal node) ?kids"
      using r1' m4 m5 by (simp only: k1) simp
  qed
  have a2: "score (best_moves sr1 ! depth second_move) = 2"
    unfolding a1 m2 k2 by (simp add: pick_def POS_INF_def)
  have a3: "score (best_moves (projr ?run) ! depth second_move) = 2"
    using a2 unfolding r1 by simp
  have "\<exists>sr'. ?run = Inr sr' \<and>
      approx True narrow_window (minimax 1 second_move after_second_move)
        (score (best_moves sr' ! depth second_move))"
  proof (rule rt[where prune = True and fuel = 2 and sr = engine_depth2 and parent = second_move
        and ab = narrow_window and current_state = after_second_move and depth_limit = 2
        and n = 1, THEN conjunct2, THEN conjunct1, THEN mp])
    show "playable 1 second_move after_second_move \<and> depth second_move + 1 = 2 \<and> (1::nat) < 2 \<and>
      2 < length (best_moves engine_depth2) \<and>
      list_all (\<lambda>node. \<not> is_terminal node) (best_moves engine_depth2) \<and>
      (depth second_move = 0 \<longrightarrow> ordered_moves engine_depth2 after_second_move = None) \<and>
      (True \<longrightarrow> window_ok narrow_window)"
      using m6 e1 e2 w by (simp only: k1) simp
  qed
  then have b1: "approx True narrow_window (minimax 1 second_move after_second_move) 2"
    using r1 a2 by auto
  have "\<exists>sr'. ?full = Inr sr' \<and>
      approx False narrow_window (minimax 1 second_move after_second_move)
        (score (best_moves sr' ! depth second_move))"
  proof (rule rt[where prune = False and fuel = 2 and sr = engine_depth2 and parent = second_move
        and ab = narrow_window and current_state = after_second_move and depth_limit = 2
        and n = 1, THEN conjunct2, THEN conjunct1, THEN mp])
    show "playable 1 second_move after_second_move \<and> depth second_move + 1 = 2 \<and> (1::nat) < 2 \<and>
      2 < length (best_moves engine_depth2) \<and>
      list_all (\<lambda>node. \<not> is_terminal node) (best_moves engine_depth2) \<and>
      (depth second_move = 0 \<longrightarrow> ordered_moves engine_depth2 after_second_move = None) \<and>
      (False \<longrightarrow> window_ok narrow_window)"
      using m6 e1 e2 by (simp only: k1) simp
  qed
  then obtain sr2 where r2: "?full = Inr sr2"
    and ap2: "approx False narrow_window (minimax 1 second_move after_second_move)
        (score (best_moves sr2 ! depth second_move))"
    by blast
  have "score (best_moves sr2 ! 1) = 0"
    using map_sum_Inr_projr[OF m7] unfolding r2 by simp
  then have b2: "minimax 1 second_move after_second_move = 0"
    using ap2 unfolding approx_def k1 by (simp only: if_False)
  have h0: "depth (root (fresh_engine HOME)) = 0"
    and h1: "ordered_moves (fresh_engine HOME) board_3x3 = None"
    by (simp_all add: fresh_engine_def Node_default_def)
  have h2: "playable 2 (root (fresh_engine HOME)) board_3x3" by code_simp
  have h3: "3 * int (ROWS board_3x3 * COLS board_3x3) < POS_INF"
    by (simp add: board_3x3_def POS_INF_def)
  have ev: "\<not> isl (search 3 (fresh_engine HOME) board_3x3 2) \<and>
      score (fst (projr (search 3 (fresh_engine HOME) board_3x3 2))) = 2"
    by code_simp
  have "\<exists>best engine best' engine'.
      search 3 (fresh_engine HOME) board_3x3 2 = Inr (best, engine) \<and>
      search_gen False 3 (fresh_engine HOME) board_3x3 2 = Inr (best', engine') \<and>
      score best = minimax 2 (root (fresh_engine HOME)) board_3x3 \<and> score best' = score best"
  proof (rule rt[where sr = "fresh_engine HOME" and position = board_3x3 and depth_limit = 2
        and fuel = 3, THEN conjunct2, THEN conjunct2, THEN mp])
    show "depth (root (fresh_engine HOME)) = 0 \<and> ordered_moves (fresh_engine HOME) board_3x3 = None \<and>
      playable 2 (root (fresh_engine HOME)) board_3x3 \<and>
      3 * int (ROWS board_3x3 * COLS board_3x3) < POS_INF \<and> (2::nat) < 3"
      using h0 h1 h2 h3 by (intro conjI) simp_all
  qed
  then obtain best engine best' engine' where
      r0: "search 3 (fresh_engine HOME) board_3x3 2 = Inr (best, engine)"
        "search_gen False 3 (fresh_engine HOME) board_3x3 2 = Inr (best', engine')"
        "score best = minimax 2 (root (fresh_engine HOME)) board_3x3" "score best' = score best"
    by blast
  from r0(1) ev have b: "score best = 2" by simp
  with r0(3) have v: "minimax 2 (root (fresh_engine HOME)) board_3x3 = 2" by (simp only:)
  from r0 b have r: "\<exists>best engine best' engine'.
      search 3 (fresh_engine HOME) board_3x3 2 = Inr (best, engine) \<and>
      search_gen False 3 (fresh_engine HOME) board_3x3 2 = Inr (best', engine') \<and>
      score best = 2 \<and> score best' = 2"
    by auto
  show ?thesis
    by (intro conjI) (fact i k1 k2 m5 m4 m2 m3 a3 m6 e1 e2 w b2 b1 h0 h1 h2 h3 v r)+
qed

end
